theory Spec2Isabelle
  imports Complex_Main "HOL-Library.Sublist" "HOL-Library.Product_Lexorder" "HOL-Library.AList"
begin

section \<open>Python strings\<close>

text \<open>
  A Python \<^verbatim>\<open>str\<close> is a sequence of Unicode code points, and \<^verbatim>\<open>len\<close> counts code
  points. A character is therefore modelled by its code point and a string by a list of
  code points. The literals of the source are written with \<open>u\<close>, which maps an ASCII
  literal to its code points; the euro sign is \<open>[8364]\<close> and the pound sign \<open>[163]\<close>.
\<close>

type_synonym uchar = nat
type_synonym ustring = "nat list"

definition u :: "string \<Rightarrow> ustring" where
  "u s = map of_char s"

text \<open>
  \<^verbatim>\<open>str.strip()\<close> removes the characters for which \<^verbatim>\<open>str.isspace()\<close> holds. CPython
  decides this with a fixed list of code points, which is reproduced here in full.
\<close>

definition isspace :: "uchar \<Rightarrow> bool" where
  "isspace c = ((9 \<le> c \<and> c \<le> 13) \<or> (28 \<le> c \<and> c \<le> 32) \<or> c = 133 \<or> c = 160 \<or> c = 5760
      \<or> (8192 \<le> c \<and> c \<le> 8202) \<or> c = 8232 \<or> c = 8233 \<or> c = 8239 \<or> c = 8287 \<or> c = 12288)"

definition strip :: "ustring \<Rightarrow> ustring" where
  "strip s = rev (dropWhile isspace (rev (dropWhile isspace s)))"

text \<open>\<^verbatim>\<open>text.split(sep)\<close> for a separator of one character: never returns an empty list.\<close>

fun split_on :: "uchar \<Rightarrow> ustring \<Rightarrow> ustring list" where
  "split_on sep [] = [[]]"
| "split_on sep (c # cs) =
     (if c = sep then [] # split_on sep cs
      else (c # hd (split_on sep cs)) # tl (split_on sep cs))"

text \<open>\<^verbatim>\<open>sep.join(parts)\<close>.\<close>

fun join :: "ustring \<Rightarrow> ustring list \<Rightarrow> ustring" where
  "join sep [] = []"
| "join sep [l] = l"
| "join sep (l # ls) = l @ sep @ join sep ls"

text \<open>
  \<^verbatim>\<open>text.replace(old, new)\<close>: the occurrences of \<open>old\<close> are found from left to right and
  do not overlap. For an empty \<open>old\<close> Python puts \<open>new\<close> before every character and at
  the end.
\<close>

function replace_from :: "ustring \<Rightarrow> ustring \<Rightarrow> ustring \<Rightarrow> ustring" where
  "replace_from old new [] = []"
| "replace_from old new (c # cs) =
     (if old \<noteq> [] \<and> prefix old (c # cs)
      then new @ replace_from old new (drop (length old) (c # cs))
      else c # replace_from old new cs)"
  by pat_completeness auto
termination
  by (relation "measure (\<lambda>(old, new, t). length t)") auto

definition replace :: "ustring \<Rightarrow> ustring \<Rightarrow> ustring \<Rightarrow> ustring" where
  "replace old new t =
     (if old = [] then new @ concat (map (\<lambda>c. c # new) t) else replace_from old new t)"

section \<open>utils.py: the text normalizer\<close>

text \<open>
  The dictionary \<^verbatim>\<open>replacements\<close> of \<^verbatim>\<open>fix_common_ocr_errors\<close>. A Python dictionary
  iterates in insertion order and the literal has no duplicate key, so the table is the
  list of its entries in the order of the source.
\<close>

definition replacements :: "(ustring \<times> ustring) list" where
  "replacements =
     [([8364], [8364]),
      (u ''$'', u ''$''),
      ([163], [163]),
      (u ''O'', u ''0''),
      (u ''l'', u ''1''),
      (u ''I'', u ''1''),
      (u ''S'', u ''5''),
      (u ''lnvoice'', u ''Invoice''),
      (u ''lnv'', u ''Inv''),
      (u ''TotaI'', u ''Total''),
      (u ''Amount'', u ''Amount''),
      (u ''VAT'', u ''VAT''),
      (u ''BTW'', u ''BTW''),
      (u ''0l'', u ''01''),
      (u ''02'', u ''02''),
      (u ''03'', u ''03''),
      (u ''04'', u ''04''),
      (u ''05'', u ''05''),
      (u ''06'', u ''06''),
      (u ''07'', u ''07''),
      (u ''08'', u ''08''),
      (u ''09'', u ''09'')]"

text \<open>The loop \<^verbatim>\<open>for old, new in replacements.items(): text = text.replace(old, new)\<close>.\<close>

definition apply_replacements :: "(ustring \<times> ustring) list \<Rightarrow> ustring \<Rightarrow> ustring" where
  "apply_replacements table text = fold (\<lambda>(old, new) t. replace old new t) table text"

definition fix_common_ocr_errors :: "ustring \<Rightarrow> ustring" where
  "fix_common_ocr_errors text = apply_replacements replacements text"

text \<open>
  The loop of \<^verbatim>\<open>clean_financial_text\<close> over the lines, with the list \<^verbatim>\<open>cleaned_lines\<close>
  as accumulator.
\<close>

fun clean_lines :: "ustring list \<Rightarrow> ustring list \<Rightarrow> ustring list" where
  "clean_lines [] cleaned_lines = cleaned_lines"
| "clean_lines (line # lines) cleaned_lines =
     (let cleaned_line = strip line in
      if cleaned_line \<noteq> [] then clean_lines lines (cleaned_lines @ [cleaned_line])
      else if cleaned_lines \<noteq> [] \<and> last cleaned_lines \<noteq> []
        then clean_lines lines (cleaned_lines @ [[]])
      else clean_lines lines cleaned_lines)"

definition clean_financial_text :: "ustring \<Rightarrow> ustring" where
  "clean_financial_text text =
     (if text = [] then text
      else fix_common_ocr_errors (join (u ''\<newline>'') (clean_lines (split_on 10 text) [])))"

text \<open>What the four single-character rules of the table do to one character.\<close>

definition ocr_char :: "uchar \<Rightarrow> uchar" where
  "ocr_char c = (if c = 79 then 48 else if c = 108 then 49 else if c = 73 then 49
                 else if c = 83 then 53 else c)"

text \<open>
  The line structure that the normalizer is specified to produce: every run of blank lines
  collapsed to one blank line, and the blank lines at the start dropped.
\<close>

fun collapse_blank_runs :: "ustring list \<Rightarrow> ustring list" where
  "collapse_blank_runs (a # b # ls) =
     (if a = [] \<and> b = [] then collapse_blank_runs (b # ls) else a # collapse_blank_runs (b # ls))"
| "collapse_blank_runs ls = ls"

fun no_double_blank :: "ustring list \<Rightarrow> bool" where
  "no_double_blank (a # b # ls) = ((a \<noteq> [] \<or> b \<noteq> []) \<and> no_double_blank (b # ls))"
| "no_double_blank ls = True"


definition tidy_lines :: "ustring list \<Rightarrow> ustring list" where
  "tidy_lines ls = dropWhile (\<lambda>l. l = []) (collapse_blank_runs (map strip ls))"


section \<open>The Unicode character database\<close>

text \<open>
  \<^verbatim>\<open>str.lower()\<close> and the classes \<^verbatim>\<open>\w\<close> and \<^verbatim>\<open>\d\<close> of the module \<^verbatim>\<open>re\<close> read the Unicode
  character database of the Python runtime, which is not part of the repository. For the
  code points below 128 the classification is written out here; for the others it is a
  parameter \<open>U\<close> of the model, so that what is proved holds for every database.
  \<^descr> \<open>alnum\<close> is \<^verbatim>\<open>str.isalnum()\<close>, \<open>decimal\<close> is membership in the category Nd, and
  \<open>lowercase\<close> is the full lower-case mapping of one code point (it may give several).
  \<^verbatim>\<open>str.lower()\<close> maps each code point on its own, except that a capital sigma becomes one
  of two small sigmas according to its position; both are beyond ASCII, so the exception
  cannot change where the ASCII keywords of the source occur.
\<close>

record unicode =
  alnum :: "uchar \<Rightarrow> bool"
  decimal :: "uchar \<Rightarrow> bool"
  lowercase :: "uchar \<Rightarrow> ustring"

text \<open>A database that knows nothing beyond ASCII, for evaluating the model on ASCII texts.\<close>

definition ascii_only :: unicode where
  "ascii_only = \<lparr>alnum = (\<lambda>c. False), decimal = (\<lambda>c. False), lowercase = (\<lambda>c. [c])\<rparr>"

definition is_digit :: "unicode \<Rightarrow> uchar \<Rightarrow> bool" where
  "is_digit U c = (if c < 128 then 48 \<le> c \<and> c \<le> 57 else decimal U c)"

definition is_word :: "unicode \<Rightarrow> uchar \<Rightarrow> bool" where
  "is_word U c =
     (if c < 128
      then (48 \<le> c \<and> c \<le> 57) \<or> (65 \<le> c \<and> c \<le> 90) \<or> (97 \<le> c \<and> c \<le> 122) \<or> c = 95
      else alnum U c)"

definition lower_char :: "unicode \<Rightarrow> uchar \<Rightarrow> ustring" where
  "lower_char U c =
     (if c < 128 then [if 65 \<le> c \<and> c \<le> 90 then c + 32 else c] else lowercase U c)"

definition lower :: "unicode \<Rightarrow> ustring \<Rightarrow> ustring" where
  "lower U s = concat (map (lower_char U) s)"

section \<open>app.py: the quality scorer\<close>

definition financial_keywords :: "ustring list" where
  "financial_keywords =
     [u ''invoice'', u ''total'', u ''amount'', u ''vat'', u ''btw'', u ''date'', u ''payment'',
      u ''receipt'', u ''statement'']"

definition currency_symbols :: "ustring list" where
  "currency_symbols = [[8364], u ''$'', [163], u ''USD'', u ''EUR'', u ''GBP'']"

text \<open>
  \<^verbatim>\<open>re.findall(r'\d+', text)\<close>: the maximal runs of digits, from left to right.
\<close>

function findall_digits :: "unicode \<Rightarrow> ustring \<Rightarrow> ustring list" where
  "findall_digits U [] = []"
| "findall_digits U (c # cs) =
     (if is_digit U c
      then (c # takeWhile (is_digit U) cs) # findall_digits U (dropWhile (is_digit U) cs)
      else findall_digits U cs)"
  by pat_completeness auto
termination
  by (relation "measure (\<lambda>(U, t). length t)") (auto simp: length_dropWhile_le less_Suc_eq_le)

text \<open>
  The negated class of \<^verbatim>\<open>special_chars\<close>: a character is special when it is no word
  character (\<^verbatim>\<open>\w\<close>), no white space (\<^verbatim>\<open>\s\<close>) and none of the euro sign, the dollar
  sign, the pound sign and \<^verbatim>\<open>. , : ; ( ) -\<close>.
\<close>

definition is_special :: "unicode \<Rightarrow> uchar \<Rightarrow> bool" where
  "is_special U c =
     (\<not> (is_word U c \<or> isspace c \<or> c \<in> set ([8364] @ u ''$'' @ [163] @ u ''.,:;()-'')))"

text \<open>
  \<^verbatim>\<open>re.findall(r'(.)\1{3,}', text)\<close>: the list of the captured characters. The dot matches
  every character but the line feed; at a character followed by at least three copies of
  itself the match takes the whole run, and the search goes on behind it.
\<close>

function findall_repeated :: "ustring \<Rightarrow> uchar list" where
  "findall_repeated [] = []"
| "findall_repeated (c # cs) =
     (if c \<noteq> 10 \<and> 3 \<le> length (takeWhile (\<lambda>x. x = c) cs)
      then c # findall_repeated (dropWhile (\<lambda>x. x = c) cs)
      else findall_repeated cs)"
  by pat_completeness auto
termination
  by (relation "measure length") (auto simp: length_dropWhile_le less_Suc_eq_le)

text \<open>
  \<^verbatim>\<open>validate_text_quality\<close>. The test \<^verbatim>\<open>len(special_chars) > len(text) * 0.1\<close> compares an
  integer \<open>n\<close> with the double nearest to \<open>len / 10\<close>. For a length that is a multiple of
  ten the product is rounded to the exact quotient, and for any other length below
  \<open>2 ^ 53\<close> it lies strictly between the two neighbouring integers, so the test is
  \<open>len < 10 * n\<close> over the integers, which is how it is written here.
\<close>

definition validate_text_quality :: "unicode \<Rightarrow> ustring \<Rightarrow> int" where
  "validate_text_quality U text =
     (if text = [] \<or> length (strip text) < 10 then 0
      else
        let score = 100;
            score = (if length text < 50 then score - 30 else score);
            found_keywords =
              length (filter (\<lambda>keyword. sublist (lower U keyword) (lower U text)) financial_keywords);
            score = (if found_keywords < 3 then score - 20 else score);
            numbers = findall_digits U text;
            score = (if length numbers < 3 then score - 15 else score);
            score = (if list_ex (\<lambda>symbol. sublist symbol text) currency_symbols
                     then score else score - 10);
            special_chars = filter (is_special U) text;
            score = (if length text < 10 * length special_chars then score - 25 else score);
            repeated_chars = findall_repeated text;
            score = (if repeated_chars \<noteq> [] then score - 15 else score)
        in max 0 (min 100 score))"

text \<open>
  The quantities of the scorer as the specification words them: the number of numeric
  tokens (a token ends at a digit that no digit follows), and whether some character
  stands four times in a row, for any character and for any character but the line feed.
\<close>

fun numeric_tokens :: "unicode \<Rightarrow> ustring \<Rightarrow> nat" where
  "numeric_tokens U [] = 0"
| "numeric_tokens U [c] = (if is_digit U c then 1 else 0)"
| "numeric_tokens U (c # d # cs) =
     (if is_digit U c \<and> \<not> is_digit U d then 1 else 0) + numeric_tokens U (d # cs)"

fun repeats_four :: "ustring \<Rightarrow> bool" where
  "repeats_four (a # b # c # d # cs) = ((a = b \<and> b = c \<and> c = d) \<or> repeats_four (b # c # d # cs))"
| "repeats_four cs = False"

fun repeats_four_in_line :: "ustring \<Rightarrow> bool" where
  "repeats_four_in_line (a # b # c # d # cs) =
     ((a \<noteq> 10 \<and> a = b \<and> b = c \<and> c = d) \<or> repeats_four_in_line (b # c # d # cs))"
| "repeats_four_in_line cs = False"

definition keywords_found :: "unicode \<Rightarrow> ustring \<Rightarrow> nat" where
  "keywords_found U text =
     length (filter (\<lambda>keyword. sublist keyword (lower U text)) financial_keywords)"

definition has_currency :: "ustring \<Rightarrow> bool" where
  "has_currency text = list_ex (\<lambda>symbol. sublist symbol text) currency_symbols"

definition noise_count :: "unicode \<Rightarrow> ustring \<Rightarrow> nat" where
  "noise_count U text = length (filter (is_special U) text)"

text \<open>
  The score as the specification states it, with the penalty for any character that
  repeats four times, and the score with that penalty for characters other than the line
  feed only.
\<close>

definition penalties :: "unicode \<Rightarrow> bool \<Rightarrow> ustring \<Rightarrow> int" where
  "penalties U repeated text =
     (if length text < 50 then 30 else 0)
     + (if keywords_found U text < 3 then 20 else 0)
     + (if numeric_tokens U text < 3 then 15 else 0)
     + (if has_currency text then 0 else 10)
     + (if length text < 10 * noise_count U text then 25 else 0)
     + (if repeated then 15 else 0)"

definition spec_score :: "unicode \<Rightarrow> ustring \<Rightarrow> int" where
  "spec_score U text =
     (if text = [] \<or> length (strip text) < 10 then 0
      else max 0 (min 100 (100 - penalties U (repeats_four text) text)))"

definition line_score :: "unicode \<Rightarrow> ustring \<Rightarrow> int" where
  "line_score U text =
     (if text = [] \<or> length (strip text) < 10 then 0
      else max 0 (min 100 (100 - penalties U (repeats_four_in_line text) text)))"

text \<open>Removing the characters that the noise test counts.\<close>

definition remove_noise :: "unicode \<Rightarrow> ustring \<Rightarrow> ustring" where
  "remove_noise U text = filter (\<lambda>c. \<not> is_special U c) text"

section \<open>utils.py: the remote formatter\<close>

text \<open>
  A block of the response of the remote service, as far as
  \<^verbatim>\<open>extract_text_with_formatting\<close> reads it. Every field is read with \<^verbatim>\<open>get\<close> and may be
  missing. \<open>Top\<close> and \<open>Left\<close> stand for the entries of \<^verbatim>\<open>Geometry.BoundingBox\<close>; they are
  missing when any of the three levels is. The coordinates are finite numbers, whose
  order is that of the reals.
\<close>

record block =
  BlockType :: "ustring option"
  Page :: "int option"
  Top :: "real option"
  Left :: "real option"
  Text :: "ustring option"

definition get :: "'a option \<Rightarrow> 'a \<Rightarrow> 'a" where
  "get field dflt = (case field of None \<Rightarrow> dflt | Some v \<Rightarrow> v)"

text \<open>
  The dictionary \<^verbatim>\<open>pages\<close> is an association list in insertion order; \<open>lines_of\<close>
  reads the list of a page, which is empty for a page that has just been entered.
\<close>

type_synonym pages = "(int \<times> block list) list"

definition lines_of :: "pages \<Rightarrow> int \<Rightarrow> block list" where
  "lines_of pages page_num = get (map_of pages page_num) []"

definition group_block :: "block \<Rightarrow> pages \<Rightarrow> pages" where
  "group_block blk pages =
     (if BlockType blk = Some (u ''PAGE'') then AList.update (get (Page blk) 1) [] pages
      else if BlockType blk = Some (u ''LINE'')
        then AList.update (get (Page blk) 1) (lines_of pages (get (Page blk) 1) @ [blk]) pages
      else pages)"

definition position :: "block \<Rightarrow> real \<times> real" where
  "position x = (get (Top x) 0, get (Left x) 0)"

definition append_line :: "block \<Rightarrow> ustring \<Rightarrow> ustring" where
  "append_line line extracted_text =
     (let text = strip (get (Text line) [])
      in if text \<noteq> [] then extracted_text @ text @ u ''\<newline>'' else extracted_text)"

definition page_break :: ustring where
  "page_break = u ''\<newline>--- PAGE BREAK ---\<newline>''"

definition render_page :: "pages \<Rightarrow> int \<Rightarrow> ustring \<Rightarrow> ustring" where
  "render_page pages page_num extracted_text =
     (let lines = sort_key position (lines_of pages page_num);
          extracted_text = fold append_line lines extracted_text
      in if page_num < Max (set (map fst pages)) then extracted_text @ page_break
         else extracted_text)"

definition extract_text_with_formatting :: "block list \<Rightarrow> ustring" where
  "extract_text_with_formatting blocks =
     (let pages = fold group_block blocks []
      in strip (fold (render_page pages) (sort (map fst pages)) []))"

text \<open>
  Which blocks are lines of a page, which announce a page, and the page numbers that occur
  in a response.
\<close>

definition is_line_on :: "int \<Rightarrow> block \<Rightarrow> bool" where
  "is_line_on p b = (BlockType b = Some (u ''LINE'') \<and> get (Page b) 1 = p)"

definition is_page_on :: "int \<Rightarrow> block \<Rightarrow> bool" where
  "is_page_on p b = (BlockType b = Some (u ''PAGE'') \<and> get (Page b) 1 = p)"

definition page_numbers :: "block list \<Rightarrow> int list" where
  "page_numbers blocks =
     map (\<lambda>b. get (Page b) 1)
       (filter (\<lambda>b. BlockType b = Some (u ''PAGE'') \<or> BlockType b = Some (u ''LINE'')) blocks)"

text \<open>
  The formatter as the specification describes it: the lines are grouped by page; the
  lines of a page are put in ascending order of top, then left; the non-blank trimmed
  texts follow each other, each closed by a line feed; the pages, in the order of their
  numbers, are separated by the page break marker; the whole is trimmed.
\<close>

definition top_then_left :: "block \<Rightarrow> real \<times> real" where
  "top_then_left b = (get (Top b) 0, get (Left b) 0)"

definition text_of_lines :: "block list \<Rightarrow> ustring" where
  "text_of_lines lines =
     concat (map (\<lambda>t. t @ u ''\<newline>'')
       (filter (\<lambda>t. t \<noteq> []) (map (\<lambda>line. strip (get (Text line) [])) lines)))"

definition spec_reading_order :: "block list \<Rightarrow> ustring" where
  "spec_reading_order blocks =
     strip (join (u ''\<newline>--- PAGE BREAK ---\<newline>'')
       (map (\<lambda>p. text_of_lines (sort_key top_then_left (filter (is_line_on p) blocks)))
         (sort (remdups (page_numbers blocks)))))"

text \<open>
  A response announces its pages when no \<^verbatim>\<open>PAGE\<close> block comes after a \<^verbatim>\<open>LINE\<close> block of
  the same page; \<open>seen\<close> holds the pages of the lines met so far.
\<close>

fun pages_announced :: "int list \<Rightarrow> block list \<Rightarrow> bool" where
  "pages_announced seen [] = True"
| "pages_announced seen (b # bs) =
     (if BlockType b = Some (u ''PAGE'')
        then get (Page b) 1 \<notin> set seen \<and> pages_announced seen bs
      else if BlockType b = Some (u ''LINE'')
        then pages_announced (get (Page b) 1 # seen) bs
      else pages_announced seen bs)"

text \<open>
  What the two loops of the source compute, in closed form. The branch for a \<^verbatim>\<open>PAGE\<close>
  block assigns the empty list to its page, so the loop keeps, of the lines of a page,
  those behind the last \<^verbatim>\<open>PAGE\<close> block of that page.
\<close>

definition kept_lines :: "int \<Rightarrow> block list \<Rightarrow> block list" where
  "kept_lines p blocks =
     filter (is_line_on p) (rev (takeWhile (\<lambda>b. \<not> is_page_on p b) (rev blocks)))"

definition loop_result :: "block list \<Rightarrow> ustring" where
  "loop_result blocks =
     strip (join page_break
       (map (\<lambda>p. text_of_lines (sort_key position (kept_lines p blocks)))
         (sort (remdups (page_numbers blocks)))))"

section \<open>utils.py: local, remote and hybrid extraction\<close>

text \<open>
  Every failure of the source is an \<^verbatim>\<open>Exception\<close> with a message; the constructors name
  the four messages and carry what the message quotes: the cause reported by the library,
  or the file name.
\<close>

datatype error =
  TextractFailed ustring
  | PdfFailed ustring
  | UnsupportedFileType ustring
  | ExcelFailed ustring

text \<open>The lines that the extraction functions print.\<close>

datatype event =
  UsingTextract ustring
  | UsingPyPDF2 ustring
  | TextractWarning ustring error
  | FallingBack ustring

text \<open>
  A cell of a data frame, and the frame as its column names and rows. The values of the
  cells other than strings are left open.
\<close>

datatype 'v cell = NaN | Str ustring | Other 'v

record 'v data_frame =
  columns :: "ustring list"
  rows :: "'v cell list list"

text \<open>
  An uploaded file: its name, and what the libraries outside the repository make of its
  content. \<open>textract\<close> is the outcome of creating the client and calling
  \<^verbatim>\<open>detect_document_text\<close>: the blocks of the response or the cause of a failure.
  \<open>pdf\<close> is the outcome of \<^verbatim>\<open>PyPDF2.PdfReader\<close>: the pages, each with the outcome of its
  \<^verbatim>\<open>extract_text\<close>, or the cause of a failure. \<open>openpyxl\<close> and \<open>xlrd\<close> are the outcomes of
  \<^verbatim>\<open>pd.read_excel\<close> with either engine.
\<close>

record 'v uploaded_file =
  name :: ustring
  textract :: "ustring + block list"
  pdf :: "ustring + (ustring + ustring) list"
  openpyxl :: "ustring + 'v data_frame"
  xlrd :: "ustring + 'v data_frame"

definition extract_text_with_aws_textract_sync ::
  "'v uploaded_file \<Rightarrow> event list \<times> (error + ustring)" where
  "extract_text_with_aws_textract_sync file =
     ([UsingTextract (name file)],
      case textract file of
        Inl e \<Rightarrow> Inl (TextractFailed e)
      | Inr response \<Rightarrow> Inr (clean_financial_text (extract_text_with_formatting response)))"

text \<open>\<^verbatim>\<open>str(n)\<close> for a natural number.\<close>

fun str :: "nat \<Rightarrow> ustring" where
  "str n = (if n < 10 then [48 + n] else str (n div 10) @ [48 + n mod 10])"

declare str.simps [simp del]

text \<open>
  The loop of \<^verbatim>\<open>extract_text_from_pdf\<close> over \<^verbatim>\<open>range(len(pdf_reader.pages))\<close>, with the
  variable \<^verbatim>\<open>text\<close> as accumulator. A page whose \<^verbatim>\<open>extract_text\<close> raises ends the loop.
\<close>

fun extract_pages :: "nat \<Rightarrow> (ustring + ustring) list \<Rightarrow> ustring \<Rightarrow> ustring + ustring" where
  "extract_pages page_num [] text = Inr text"
| "extract_pages page_num (Inl e # pages) text = Inl e"
| "extract_pages page_num (Inr page_text # pages) text =
     extract_pages (Suc page_num) pages
       (if strip page_text \<noteq> []
        then text @ u ''--- PAGE '' @ str (page_num + 1) @ u '' ---\<newline>'' @ page_text @ u ''\<newline>\<newline>''
        else text)"

definition extract_text_from_pdf :: "'v uploaded_file \<Rightarrow> event list \<times> (error + ustring)" where
  "extract_text_from_pdf file =
     ([UsingPyPDF2 (name file)],
      case pdf file of
        Inl e \<Rightarrow> Inl (PdfFailed e)
      | Inr pages \<Rightarrow>
          (case extract_pages 0 pages [] of
             Inl e \<Rightarrow> Inl (PdfFailed e)
           | Inr text \<Rightarrow> Inr (clean_financial_text (strip text))))"

definition extract_text_from_file ::
  "unicode \<Rightarrow> 'v uploaded_file \<Rightarrow> event list \<times> (error + ustring)" where
  "extract_text_from_file U file =
     (let file_name = lower U (name file)
      in if suffix (u ''.pdf'') file_name then extract_text_from_pdf file
         else ([], Inl (UnsupportedFileType file_name)))"

definition extract_text_hybrid ::
  "unicode \<Rightarrow> 'v uploaded_file \<Rightarrow> bool \<Rightarrow> event list \<times> (error + ustring)" where
  "extract_text_hybrid U file use_aws =
     (if use_aws
      then (case extract_text_with_aws_textract_sync file of
              (printed, Inr text) \<Rightarrow> (printed, Inr text)
            | (printed, Inl e) \<Rightarrow>
                (case extract_text_from_file U file of
                   (printed_local, result) \<Rightarrow>
                     (printed @ [TextractWarning (name file) e, FallingBack (name file)]
                        @ printed_local, result)))
      else extract_text_from_file U file)"

text \<open>
  Local extraction in closed form. \<open>page_texts\<close> is the texts of the pages, or the cause
  of the first page that fails; \<open>numbered\<close> gives each page its position, counted from 1;
  \<open>marked_pages\<close> writes the marker and the text of each page it is given.
  \<open>local_text\<close> keeps the pages that are not blank, and \<open>local_text_nonempty\<close> keeps the
  pages whose text is not empty, as the specification words it.
\<close>

fun page_texts :: "(ustring + ustring) list \<Rightarrow> ustring + ustring list" where
  "page_texts [] = Inr []"
| "page_texts (Inl e # pages) = Inl e"
| "page_texts (Inr t # pages) =
     (case page_texts pages of Inl e \<Rightarrow> Inl e | Inr ts \<Rightarrow> Inr (t # ts))"

definition numbered :: "ustring list \<Rightarrow> (nat \<times> ustring) list" where
  "numbered ts = zip [1..<Suc (length ts)] ts"

definition marked_pages :: "(nat \<times> ustring) list \<Rightarrow> ustring" where
  "marked_pages ps =
     concat (map (\<lambda>(n, t). u ''--- PAGE '' @ str n @ u '' ---\<newline>'' @ t @ u ''\<newline>\<newline>'') ps)"

definition local_text :: "ustring list \<Rightarrow> ustring" where
  "local_text ts =
     clean_financial_text (strip (marked_pages (filter (\<lambda>(n, t). strip t \<noteq> []) (numbered ts))))"

definition local_text_nonempty :: "ustring list \<Rightarrow> ustring" where
  "local_text_nonempty ts =
     clean_financial_text (strip (marked_pages (filter (\<lambda>(n, t). t \<noteq> []) (numbered ts))))"




section \<open>orchestrator.py and app.py: classification, dispatch and the two steps\<close>

text \<open>
  The values of the \<^verbatim>\<open>Literal\<close> type of \<^verbatim>\<open>DocumentClassifier.document_type\<close>.
\<close>

definition document_types :: "ustring list" where
  "document_types =
     [u ''invoice'', u ''bank_statement'', u ''tax_document'', u ''receipt'',
      u ''financial_report'', u ''other'']"

text \<open>
  The four functions of \<^verbatim>\<open>orchestrator.py\<close> each send one prompt to the language model
  and return its structured answer. The model is outside the repository: \<open>M\<close> gives, for
  each function and text, the answer or the cause of a failure. The three output types
  are left open.
\<close>

record ('i, 'b, 'g) language_model =
  classifier_answer :: "ustring \<Rightarrow> ustring + ustring"
  process_invoice :: "ustring \<Rightarrow> ustring + 'i"
  process_bank_statement :: "ustring \<Rightarrow> ustring + 'b"
  process_general_document :: "ustring \<Rightarrow> ustring + 'g"

text \<open>
  \<^verbatim>\<open>classify_document\<close>: the answer is parsed into \<^verbatim>\<open>DocumentClassifier\<close>, whose field
  admits the six values only; any other answer fails the validation.
\<close>

definition classify_document :: "('i, 'b, 'g) language_model \<Rightarrow> ustring \<Rightarrow> ustring + ustring" where
  "classify_document M text =
     (case classifier_answer M text of
        Inl e \<Rightarrow> Inl e
      | Inr document_type \<Rightarrow>
          if document_type \<in> set document_types then Inr document_type
          else Inl (u ''validation error: '' @ document_type))"

datatype ('i, 'b, 'g) structured_output =
  InvoiceOutput 'i
  | BankTransactions 'b
  | GeneralDocumentOutput 'g

text \<open>The calls of the language model, with the text that is sent.\<close>

datatype call =
  Classify ustring
  | ProcessInvoice ustring
  | ProcessBankStatement ustring
  | ProcessGeneralDocument ustring

text \<open>
  The chain \<^verbatim>\<open>if doc_type == "invoice" ... elif ... else\<close> of the analysis loop. The result
  is \<open>None\<close> in the last branch, which warns that the type is not supported and goes on
  to the next document.
\<close>

definition dispatch ::
  "('i, 'b, 'g) language_model \<Rightarrow> ustring \<Rightarrow> ustring
     \<Rightarrow> call list \<times> (ustring + ('i, 'b, 'g) structured_output) option" where
  "dispatch M doc_type text =
     (if doc_type = u ''invoice''
        then ([ProcessInvoice text], Some (map_sum id InvoiceOutput (process_invoice M text)))
      else if doc_type = u ''bank_statement''
        then ([ProcessBankStatement text],
              Some (map_sum id BankTransactions (process_bank_statement M text)))
      else if doc_type \<in> set [u ''tax_document'', u ''receipt'', u ''financial_report'', u ''other'']
        then ([ProcessGeneralDocument text],
              Some (map_sum id GeneralDocumentOutput (process_general_document M text)))
      else ([], None))"

text \<open>
  What the analysis loop does with one extracted text: an entry of \<^verbatim>\<open>all_results\<close>, the
  warning, or the error message of the \<^verbatim>\<open>except\<close> branch.
\<close>

datatype ('i, 'b, 'g) analysis =
  Analysed ustring ustring "('i, 'b, 'g) structured_output"
  | NotSupported ustring
  | Failed ustring ustring

definition analyse_text ::
  "('i, 'b, 'g) language_model \<Rightarrow> ustring \<times> ustring \<times> int
     \<Rightarrow> call list \<times> ('i, 'b, 'g) analysis" where
  "analyse_text M entry =
     (case entry of (file_name, text, quality_score) \<Rightarrow>
        (case classify_document M text of
           Inl e \<Rightarrow> ([Classify text], Failed file_name e)
         | Inr doc_type \<Rightarrow>
             (case dispatch M doc_type text of
                (calls, None) \<Rightarrow> (Classify text # calls, NotSupported file_name)
              | (calls, Some (Inl e)) \<Rightarrow> (Classify text # calls, Failed file_name e)
              | (calls, Some (Inr final_output)) \<Rightarrow>
                  (Classify text # calls, Analysed file_name doc_type final_output))))"



text \<open>
  Step 2: the analysis of the extracted texts, then the loop that appends the Excel
  results, each with the type \<^verbatim>\<open>excel\<close>. The result is the calls of the language model
  and \<^verbatim>\<open>all_results\<close>.
\<close>

datatype ('i, 'b, 'g, 'v) result =
  DocumentResult ustring ustring "('i, 'b, 'g) structured_output"
  | ExcelResult ustring ustring "'v data_frame"





section \<open>Properties of the string operations\<close>

lemma replace_from_single: "replace_from [a] [b] t = map (\<lambda>c. if c = a then b else c) t"
  by (induction t) auto

lemma replace_from_same: "replace_from old old t = t"
proof (induction t rule: length_induct)
  case (1 t)
  show ?case
  proof (cases t)
    case Nil
    then show ?thesis by simp
  next
    case (Cons c cs)
    show ?thesis
    proof (cases "old \<noteq> [] \<and> prefix old (c # cs)")
      case True
      then obtain zs where zs: "c # cs = old @ zs" by (auto simp: prefix_def)
      with True have "length zs < length t" using Cons by (metis length_append length_greater_0_conv less_add_same_cancel2)
      with 1 have ih: "replace_from old old zs = zs" by blast
      have "replace_from old old (c # cs) = old @ replace_from old old (drop (length old) (c # cs))"
        using True by simp
      also have "drop (length old) (c # cs) = zs" by (simp only: zs) simp
      finally show ?thesis using ih zs Cons by simp
    next
      case False
      with 1 Cons show ?thesis by auto
    qed
  qed
qed

lemma replace_from_absent: "c \<in> set old \<Longrightarrow> c \<notin> set t \<Longrightarrow> replace_from old new t = t"
proof (induction t)
  case Nil
  then show ?case by simp
next
  case (Cons a t)
  then have "\<not> prefix old (a # t)" using set_mono_prefix by blast
  with Cons show ?case by simp
qed

lemma sublist_absent: "c \<in> set old \<Longrightarrow> c \<notin> set t \<Longrightarrow> \<not> sublist old t"
  using set_mono_sublist by blast

lemma strip_Nil [simp]: "strip [] = []" by (simp add: strip_def)

lemma strip_fixed: "s = [] \<or> (\<not> isspace (hd s) \<and> \<not> isspace (last s)) \<Longrightarrow> strip s = s"
  by (cases s) (auto simp: strip_def dropWhile_eq_self_iff hd_rev split: if_splits)

lemma strip_ends: "strip s \<noteq> [] \<Longrightarrow> \<not> isspace (hd (strip s)) \<and> \<not> isspace (last (strip s))"
proof -
  assume ne: "strip s \<noteq> []"
  define a where "a = dropWhile isspace s"
  define b where "b = dropWhile isspace (rev a)"
  have sb: "strip s = rev b" by (simp add: strip_def a_def b_def)
  with ne have bne: "b \<noteq> []" by simp
  then have hb: "\<not> isspace (hd b)" unfolding b_def using hd_dropWhile by blast
  from bne have ane: "a \<noteq> []" unfolding b_def by auto
  then have ha: "\<not> isspace (hd a)" unfolding a_def using hd_dropWhile by blast
  have "rev a = takeWhile isspace (rev a) @ b" by (simp add: b_def)
  then have "a = rev b @ rev (takeWhile isspace (rev a))" by (metis rev_append rev_rev_ident)
  with bne have "hd a = hd (rev b)" by (metis hd_append2 rev_is_Nil_conv)
  with ha hb bne show ?thesis by (simp add: sb last_rev)
qed

lemma strip_strip: "strip (strip s) = strip s"
  using strip_ends strip_fixed by blast

lemma strip_map: "(\<And>c. isspace (f c) = isspace c) \<Longrightarrow> strip (map f s) = map f (strip s)"
  by (simp add: strip_def dropWhile_map rev_map comp_def)

lemma set_strip: "set (strip s) \<subseteq> set s"
  unfolding strip_def by (metis set_dropWhileD set_rev subsetI)

lemma split_on_ne [simp]: "split_on sep t \<noteq> []"
  by (induction t) auto

lemma split_on_no_sep: "l \<in> set (split_on sep t) \<Longrightarrow> sep \<notin> set l"
proof (induction t arbitrary: l)
  case Nil
  then show ?case by simp
next
  case (Cons c t)
  obtain h r where hr: "split_on sep t = h # r" by (cases "split_on sep t") auto
  with Cons show ?case by (auto split: if_splits)
qed

lemma join_Cons: "ls \<noteq> [] \<Longrightarrow> join sep (l # ls) = l @ sep @ join sep ls"
  by (cases ls) auto

lemma split_on_append: "sep \<notin> set l \<Longrightarrow> split_on sep (l @ sep # t) = l # split_on sep t"
  by (induction l) auto

lemma split_on_plain: "sep \<notin> set l \<Longrightarrow> split_on sep l = [l]"
  by (induction l) auto

lemma split_join: "L \<noteq> [] \<Longrightarrow> (\<And>l. l \<in> set L \<Longrightarrow> sep \<notin> set l) \<Longrightarrow> split_on sep (join [sep] L) = L"
proof (induction L)
  case Nil
  then show ?case by simp
next
  case (Cons l L)
  show ?case
  proof (cases L)
    case Nil
    with Cons.prems show ?thesis by (simp add: split_on_plain)
  next
    case (Cons a M)
    then have "join [sep] (l # L) = l @ sep # join [sep] L" by simp
    moreover have "split_on sep (join [sep] L) = L" using Cons Cons.IH Cons.prems by auto
    ultimately show ?thesis using Cons.prems by (simp add: split_on_append)
  qed
qed

lemma map_join: "map f (join sep L) = join (map f sep) (map (map f) L)"
  by (induction sep L rule: join.induct) auto

lemma collapse_Cons_ne: "s \<noteq> [] \<Longrightarrow> collapse_blank_runs (s # S) = s # collapse_blank_runs S"
  by (cases S) auto

lemma collapse_blank_Cons: "dropWhile (\<lambda>l. l = []) (collapse_blank_runs ([] # S)) = dropWhile (\<lambda>l. l = []) (collapse_blank_runs S)"
  by (cases S) auto

lemma clean_lines_acc:
  "acc \<noteq> [] \<Longrightarrow> clean_lines ls acc = butlast acc @ collapse_blank_runs (last acc # map strip ls)"
proof (induction ls arbitrary: acc)
  case Nil
  then show ?case by simp
next
  case (Cons l ls)
  show ?case
  proof (cases "strip l = []")
    case False
    with Cons.prems Cons.IH[of "acc @ [strip l]"] show ?thesis by (simp add: Let_def)
  next
    case True
    show ?thesis
    proof (cases "last acc = []")
      case True
      with \<open>strip l = []\<close> Cons.prems Cons.IH[of acc] show ?thesis by (simp add: Let_def)
    next
      case False
      with \<open>strip l = []\<close> Cons.prems Cons.IH[of "acc @ [[]]"] show ?thesis by (simp add: Let_def)
    qed
  qed
qed

lemma clean_lines_Nil:
  "clean_lines ls [] = dropWhile (\<lambda>l. l = []) (collapse_blank_runs (map strip ls))"
proof (induction ls)
  case Nil
  then show ?case by simp
next
  case (Cons l ls)
  show ?case
  proof (cases "strip l = []")
    case True
    with Cons show ?thesis by (simp add: Let_def collapse_blank_Cons)
  next
    case False
    then show ?thesis by (simp add: Let_def clean_lines_acc collapse_Cons_ne)
  qed
qed

section \<open>Properties of the text normalizer\<close>

lemma set_collapse: "set (collapse_blank_runs ls) \<subseteq> set ls"
  by (induction ls rule: collapse_blank_runs.induct) auto

lemma collapse_head: "\<exists>r. collapse_blank_runs (b # ls) = b # r"
  by (induction ls arbitrary: b) auto

lemma no_double_collapse: "no_double_blank (collapse_blank_runs ls)"
proof (induction ls rule: collapse_blank_runs.induct)
  case (1 a b ls)
  obtain r where r: "collapse_blank_runs (b # ls) = b # r" using collapse_head by blast
  with 1 show ?case by auto
qed auto

lemma no_double_dropWhile: "no_double_blank ls \<Longrightarrow> no_double_blank (dropWhile P ls)"
  by (induction ls rule: no_double_blank.induct) auto

lemma collapse_fixed: "no_double_blank ls \<Longrightarrow> collapse_blank_runs ls = ls"
  by (induction ls rule: no_double_blank.induct) auto

lemma no_double_map: "(\<And>l. (f l = []) = (l = [])) \<Longrightarrow> no_double_blank (map f ls) = no_double_blank ls"
  by (induction ls rule: no_double_blank.induct) auto

lemma set_tidy: "set (tidy_lines ls) \<subseteq> strip ` set ls"
  unfolding tidy_lines_def using set_collapse set_dropWhileD by (metis (no_types, lifting) list.set_map subsetD subsetI)

lemma tidy_trimmed: "l \<in> set (tidy_lines ls) \<Longrightarrow> strip l = l"
  using set_tidy strip_strip by blast

lemma tidy_no_double: "no_double_blank (tidy_lines ls)"
  by (simp add: tidy_lines_def no_double_collapse no_double_dropWhile)

lemma tidy_hd: "tidy_lines ls \<noteq> [] \<Longrightarrow> hd (tidy_lines ls) \<noteq> []"
  unfolding tidy_lines_def using hd_dropWhile by blast

lemma tidy_no_sep: "l \<in> set (tidy_lines (split_on sep x)) \<Longrightarrow> sep \<notin> set l"
  using set_tidy split_on_no_sep set_strip by blast

lemma tidy_fixed:
  assumes "\<And>l. l \<in> set ls \<Longrightarrow> strip l = l" "no_double_blank ls" "ls = [] \<or> hd ls \<noteq> []"
  shows "tidy_lines ls = ls"
proof -
  have "map strip ls = ls" using assms(1) by (simp add: map_idI)
  moreover have "dropWhile (\<lambda>l. l = []) ls = ls" using assms(3) by (cases ls) auto
  ultimately show ?thesis by (simp add: tidy_lines_def collapse_fixed assms(2))
qed

lemma isspace_ocr_char: "isspace (ocr_char c) = isspace c"
  by (simp add: ocr_char_def isspace_def)

lemma ocr_char_idem: "ocr_char (ocr_char c) = ocr_char c"
  by (simp add: ocr_char_def)

lemma ocr_char_nl: "ocr_char 10 = 10"
  by (simp add: ocr_char_def)

lemma ocr_char_eq_nl: "ocr_char c = 10 \<Longrightarrow> c = 10"
  by (simp add: ocr_char_def split: if_splits)

lemma ocr_singles: "apply_replacements (take 7 replacements) t = map ocr_char t"
  by (simp add: apply_replacements_def replacements_def u_def replace_def replace_from_single replace_from_same ocr_char_def)

lemma apply_replacements_append: "apply_replacements (a @ b) t = apply_replacements b (apply_replacements a t)"
  by (simp add: apply_replacements_def)

lemma ocr_rest: "apply_replacements (drop 7 replacements) (map ocr_char t) = map ocr_char t"
proof -
  have a: "108 \<notin> set (map ocr_char t)" by (auto simp: ocr_char_def)
  have b: "73 \<notin> set (map ocr_char t)" by (auto simp: ocr_char_def)
  show ?thesis
    using a b
    by (simp add: apply_replacements_def replacements_def u_def replace_def replace_from_same
        replace_from_absent[of 108] replace_from_absent[of 73])
qed

lemma fix_map: "fix_common_ocr_errors t = map ocr_char t"
proof -
  have "fix_common_ocr_errors t = apply_replacements (take 7 replacements @ drop 7 replacements) t"
    by (simp add: fix_common_ocr_errors_def)
  then show ?thesis by (simp only: apply_replacements_append ocr_singles ocr_rest)
qed

lemma u_nl: "u ''\<newline>'' = [10]" by (simp add: u_def)

lemma clean_eq: "clean_financial_text x = join [10] (map (map ocr_char) (tidy_lines (split_on 10 x)))"
proof (cases "x = []")
  case True
  then show ?thesis by (simp add: clean_financial_text_def tidy_lines_def)
next
  case False
  then show ?thesis
    by (simp add: clean_financial_text_def fix_map u_nl clean_lines_Nil tidy_lines_def map_join ocr_char_nl)
qed

lemma ocr_lines_fixed:
  "tidy_lines (map (map ocr_char) (tidy_lines ls)) = map (map ocr_char) (tidy_lines ls)"
proof (rule tidy_fixed)
  fix l assume "l \<in> set (map (map ocr_char) (tidy_lines ls))"
  then obtain k where k: "k \<in> set (tidy_lines ls)" "l = map ocr_char k" by auto
  then show "strip l = l" using tidy_trimmed[OF k(1)] by (simp add: strip_map isspace_ocr_char)
next
  show "no_double_blank (map (map ocr_char) (tidy_lines ls))"
    by (simp add: no_double_map tidy_no_double)
next
  show "map (map ocr_char) (tidy_lines ls) = [] \<or> hd (map (map ocr_char) (tidy_lines ls)) \<noteq> []"
    using tidy_hd[of ls] by (cases "tidy_lines ls") auto
qed

lemma ocr_rest_take:
  "apply_replacements (take k (drop 7 replacements)) (map ocr_char t) = map ocr_char t"
proof -
  have a: "108 \<notin> set (map ocr_char t)" by (auto simp: ocr_char_def)
  have b: "73 \<notin> set (map ocr_char t)" by (auto simp: ocr_char_def)
  have step: "replace old new (map ocr_char t) = map ocr_char t"
    if "(old, new) \<in> set (drop 7 replacements)" for old new
    using that a b
    by (auto simp add: replacements_def u_def replace_def replace_from_same
        replace_from_absent[of 108] replace_from_absent[of 73])
  have "fold (\<lambda>(old, new) t. replace old new t) rs (map ocr_char t) = map ocr_char t"
    if "set rs \<subseteq> set (drop 7 replacements)" for rs
    using that by (induction rs) (auto simp: step)
  then show ?thesis unfolding apply_replacements_def by (meson set_take_subset)
qed

lemma after_singles:
  "apply_replacements (take (7 + k) replacements) t = map ocr_char t"
  by (simp only: take_add apply_replacements_append ocr_singles ocr_rest_take)

lemma no_l_after: "\<not> sublist old (map ocr_char t)" if "108 \<in> set old \<or> 73 \<in> set old"
proof -
  have a: "108 \<notin> set (map ocr_char t)" by (auto simp: ocr_char_def)
  have b: "73 \<notin> set (map ocr_char t)" by (auto simp: ocr_char_def)
  show ?thesis
  proof (cases "108 \<in> set old")
    case True
    then show ?thesis using a by (rule sublist_absent)
  next
    case False
    with that have "73 \<in> set old" by simp
    then show ?thesis using b by (rule sublist_absent)
  qed
qed


lemma ocr_lines_trimmed:
  "l \<in> set (map (map ocr_char) (tidy_lines ls)) \<Longrightarrow> strip l = l"
proof -
  assume "l \<in> set (map (map ocr_char) (tidy_lines ls))"
  then obtain k where k: "k \<in> set (tidy_lines ls)" "l = map ocr_char k" by auto
  then show "strip l = l" using tidy_trimmed[OF k(1)] by (simp add: strip_map isspace_ocr_char)
qed

lemma clean_lines_of_output:
  "split_on 10 (clean_financial_text x) =
     (if tidy_lines (split_on 10 x) = [] then [[]]
      else map (map ocr_char) (tidy_lines (split_on 10 x)))"
proof -
  define T where "T = map (map ocr_char) (tidy_lines (split_on 10 x))"
  have cx: "clean_financial_text x = join [10] T" by (simp add: clean_eq T_def)
  show ?thesis
  proof (cases "T = []")
    case True
    then show ?thesis using cx by (simp add: T_def)
  next
    case False
    have nosep: "10 \<notin> set l" if "l \<in> set T" for l
    proof -
      from that obtain k where k: "k \<in> set (tidy_lines (split_on 10 x))" "l = map ocr_char k"
        by (auto simp: T_def)
      from k(1) have "10 \<notin> set k" by (rule tidy_no_sep)
      with k(2) show ?thesis using ocr_char_eq_nl by fastforce
    qed
    have "split_on 10 (join [10] T) = T" using False nosep by (rule split_join)
    with False show ?thesis by (simp add: cx T_def)
  qed
qed


section \<open>Properties of the quality scorer\<close>

lemma numeric_tokens_after_run:
  "is_digit U c \<Longrightarrow> numeric_tokens U (c # cs) = Suc (numeric_tokens U (dropWhile (is_digit U) cs))"
proof (induction cs arbitrary: c)
  case Nil
  then show ?case by simp
next
  case (Cons d cs)
  then show ?case by (cases "is_digit U d") auto
qed

lemma numeric_tokens_Cons_other:
  "\<not> is_digit U c \<Longrightarrow> numeric_tokens U (c # cs) = numeric_tokens U cs"
  by (cases cs) auto

lemma length_findall_digits: "length (findall_digits U t) = numeric_tokens U t"
  by (induction U t rule: findall_digits.induct)
     (auto simp: numeric_tokens_after_run numeric_tokens_Cons_other)

lemma run_of_three: "(3 \<le> length (takeWhile (\<lambda>x. x = c) cs)) = (\<exists>r. cs = c # c # c # r)"
proof
  assume a: "3 \<le> length (takeWhile (\<lambda>x. x = c) cs)"
  then obtain x y z r where t: "takeWhile (\<lambda>x. x = c) cs = x # y # z # r"
    by (metis Suc_le_length_iff numeral_3_eq_3)
  then have "x = c \<and> y = c \<and> z = c"
    by (metis list.set_intros(1) list.set_intros(2) set_takeWhileD)
  moreover have "cs = takeWhile (\<lambda>x. x = c) cs @ dropWhile (\<lambda>x. x = c) cs" by simp
  ultimately show "\<exists>r. cs = c # c # c # r" using t by (metis append_Cons)
next
  assume "\<exists>r. cs = c # c # c # r"
  then show "3 \<le> length (takeWhile (\<lambda>x. x = c) cs)" by auto
qed

lemma repeats_four_in_line_Cons:
  "repeats_four_in_line (c # cs) = ((c \<noteq> 10 \<and> (\<exists>r. cs = c # c # c # r)) \<or> repeats_four_in_line cs)"
proof (cases cs)
  case Nil
  then show ?thesis by simp
next
  case (Cons x xs)
  show ?thesis
  proof (cases xs)
    case Nil
    with Cons show ?thesis by simp
  next
    case (Cons y ys)
    with \<open>cs = x # xs\<close> show ?thesis by (cases ys) auto
  qed
qed

lemma findall_repeated_nonempty: "(findall_repeated t \<noteq> []) = repeats_four_in_line t"
proof (induction t)
  case Nil
  then show ?case by simp
next
  case (Cons c cs)
  show ?case
    unfolding repeats_four_in_line_Cons using Cons by (simp add: run_of_three)
qed

lemma lower_keywords: "map (lower U) financial_keywords = financial_keywords"
  by (simp add: financial_keywords_def lower_def lower_char_def u_def)

lemma keywords_found_eq:
  "length (filter (\<lambda>keyword. sublist (lower U keyword) (lower U text)) financial_keywords)
     = keywords_found U text"
proof -
  have "filter (\<lambda>keyword. sublist (lower U keyword) (lower U text)) financial_keywords
      = filter (\<lambda>keyword. sublist keyword (lower U text)) financial_keywords"
    by (rule filter_cong) (auto simp: financial_keywords_def lower_def lower_char_def u_def)
  then show ?thesis by (simp add: keywords_found_def)
qed

lemma validate_line_score: "validate_text_quality U text = line_score U text"
  unfolding validate_text_quality_def line_score_def penalties_def Let_def
    keywords_found_eq length_findall_digits findall_repeated_nonempty
    has_currency_def[symmetric] noise_count_def[symmetric]
  by simp

lemma line_score_bounds: "0 \<le> line_score U text \<and> line_score U text \<le> 100"
  by (simp add: line_score_def)

lemma sublist_filter:
  assumes "sublist s t" "\<And>c. c \<in> set s \<Longrightarrow> P c"
  shows "sublist s (filter P t)"
proof -
  from assms(1) obtain ps ss where t: "t = ps @ s @ ss" by (auto simp: sublist_def)
  have "filter P s = s" using assms(2) by (simp add: filter_id_conv)
  then have "filter P t = filter P ps @ s @ filter P ss" by (simp add: t)
  then show ?thesis unfolding sublist_def by blast
qed

lemma currency_chars:
  "s \<in> set currency_symbols \<Longrightarrow> c \<in> set s \<Longrightarrow> c \<in> {8364, 36, 163, 85, 83, 68, 69, 82, 71, 66, 80}"
  by (auto simp: currency_symbols_def u_def)

lemma listed_not_special:
  "c \<in> {8364, 36, 163, 85, 83, 68, 69, 82, 71, 66, 80} \<Longrightarrow> \<not> is_special U c"
  by (elim insertE emptyE) (simp_all add: is_special_def is_word_def u_def)

lemma currency_not_special: "s \<in> set currency_symbols \<Longrightarrow> c \<in> set s \<Longrightarrow> \<not> is_special U c"
  using currency_chars listed_not_special by blast

lemma has_currency_remove_noise:
  assumes "has_currency text"
  shows "has_currency (remove_noise U text)"
proof -
  from assms obtain s where s: "s \<in> set currency_symbols" "sublist s text"
    by (auto simp: has_currency_def list_ex_iff)
  have "sublist s (filter (\<lambda>c. \<not> is_special U c) text)"
    using s(2) by (rule sublist_filter) (rule currency_not_special[OF s(1)])
  with s(1) show ?thesis unfolding has_currency_def remove_noise_def list_ex_iff by blast
qed

lemma noise_count_remove_noise: "noise_count U (remove_noise U text) = 0"
  by (simp add: noise_count_def remove_noise_def)

lemma penalties_remove_noise:
  assumes "50 \<le> length (remove_noise U text) \<or> length text < 50"
    and "3 \<le> keywords_found U (remove_noise U text) \<or> keywords_found U text < 3"
    and "3 \<le> numeric_tokens U (remove_noise U text) \<or> numeric_tokens U text < 3"
    and "repeats_four_in_line (remove_noise U text) \<longrightarrow> repeats_four_in_line text"
  shows "penalties U (repeats_four_in_line (remove_noise U text)) (remove_noise U text)
      \<le> penalties U (repeats_four_in_line text) text"
proof -
  let ?r = "remove_noise U text"
  have p1: "(if length ?r < 50 then 30 else 0) \<le> (if length text < 50 then 30 else (0::int))"
    using assms(1) by auto
  have p2: "(if keywords_found U ?r < 3 then 20 else 0) \<le> (if keywords_found U text < 3 then 20 else (0::int))"
    using assms(2) by auto
  have p3: "(if numeric_tokens U ?r < 3 then 15 else 0) \<le> (if numeric_tokens U text < 3 then 15 else (0::int))"
    using assms(3) by auto
  have p4: "(if has_currency ?r then 0 else 10) \<le> (if has_currency text then 0 else (10::int))"
    using has_currency_remove_noise[of "text" U] by auto
  have p5: "(if length ?r < 10 * noise_count U ?r then 25 else 0) \<le> (if length text < 10 * noise_count U text then 25 else (0::int))"
    by (simp add: noise_count_remove_noise)
  have p6: "(if repeats_four_in_line ?r then 15 else 0) \<le> (if repeats_four_in_line text then 15 else (0::int))"
    using assms(4) by auto
  show ?thesis unfolding penalties_def by (intro add_mono p1 p2 p3 p4 p5 p6)
qed

lemma noise_removal:
  assumes "10 \<le> length (strip (remove_noise U text))"
    and "50 \<le> length (remove_noise U text) \<or> length text < 50"
    and "3 \<le> keywords_found U (remove_noise U text) \<or> keywords_found U text < 3"
    and "3 \<le> numeric_tokens U (remove_noise U text) \<or> numeric_tokens U text < 3"
    and "repeats_four_in_line (remove_noise U text) \<longrightarrow> repeats_four_in_line text"
  shows "validate_text_quality U text \<le> validate_text_quality U (remove_noise U text)"
proof (cases "text = [] \<or> length (strip text) < 10")
  case True
  then have "line_score U text = 0" by (simp add: line_score_def)
  then show ?thesis using line_score_bounds[of U "remove_noise U text"] by (simp add: validate_line_score)
next
  case False
  from assms(1) have ne: "remove_noise U text \<noteq> []" by auto
  have le: "penalties U (repeats_four_in_line (remove_noise U text)) (remove_noise U text)
      \<le> penalties U (repeats_four_in_line text) text"
    using assms(2-5) by (rule penalties_remove_noise)
  have a: "line_score U text = max 0 (min 100 (100 - penalties U (repeats_four_in_line text) text))"
    using False by (simp add: line_score_def)
  have b: "line_score U (remove_noise U text) = max 0 (min 100 (100 - penalties U (repeats_four_in_line (remove_noise U text)) (remove_noise U text)))"
    using ne assms(1) by (simp add: line_score_def)
  show ?thesis unfolding validate_line_score a b using le by linarith
qed

lemmas text_eval = u_def strip_def isspace_def keywords_found_def financial_keywords_def lower_def
  lower_char_def sublist_code is_digit_def has_currency_def currency_symbols_def noise_count_def
  is_special_def is_word_def remove_noise_def

lemma noisy_sample:
  "length (u ''#1#2#3#$##'') = 10"
  "length (strip (u ''#1#2#3#$##'')) = 10"
  "keywords_found U (u ''#1#2#3#$##'') = 0"
  "numeric_tokens U (u ''#1#2#3#$##'') = 3"
  "has_currency (u ''#1#2#3#$##'')"
  "noise_count U (u ''#1#2#3#$##'') = 6"
  "\<not> repeats_four_in_line (u ''#1#2#3#$##'')"
  "remove_noise U (u ''#1#2#3#$##'') = u ''123$''"
  "length (strip (u ''123$'')) = 4"
  by (simp_all add: text_eval)

lemma noisy_sample_score: "validate_text_quality U (u ''#1#2#3#$##'') = 25"
  unfolding validate_line_score line_score_def penalties_def noisy_sample(1,2,3,4,6)
  using noisy_sample(5,7) by (simp add: u_def)

lemma noisy_sample_removed_score: "validate_text_quality U (remove_noise U (u ''#1#2#3#$##'')) = 0"
  unfolding validate_line_score line_score_def noisy_sample(8,9) by simp

lemma blank_sample:
  "length (u ''abcdefghij\<newline>\<newline>\<newline>\<newline>k'') = 15"
  "length (strip (u ''abcdefghij\<newline>\<newline>\<newline>\<newline>k'')) = 15"
  "keywords_found U (u ''abcdefghij\<newline>\<newline>\<newline>\<newline>k'') = 0"
  "numeric_tokens U (u ''abcdefghij\<newline>\<newline>\<newline>\<newline>k'') = 0"
  "\<not> has_currency (u ''abcdefghij\<newline>\<newline>\<newline>\<newline>k'')"
  "noise_count U (u ''abcdefghij\<newline>\<newline>\<newline>\<newline>k'') = 0"
  "\<not> repeats_four_in_line (u ''abcdefghij\<newline>\<newline>\<newline>\<newline>k'')"
  "repeats_four (u ''abcdefghij\<newline>\<newline>\<newline>\<newline>k'')"
  by (simp_all add: text_eval)

lemma blank_sample_score: "validate_text_quality U (u ''abcdefghij\<newline>\<newline>\<newline>\<newline>k'') = 25"
  unfolding validate_line_score line_score_def penalties_def blank_sample(1,2,3,4,6)
  using blank_sample(5,7) by (simp add: u_def)

lemma blank_sample_spec_score: "spec_score U (u ''abcdefghij\<newline>\<newline>\<newline>\<newline>k'') = 10"
  unfolding spec_score_def penalties_def blank_sample(1,2,3,4,6)
  using blank_sample(5,8) by (simp add: u_def)

lemma clean_sample:
  "remove_noise U (u ''invoice total amount 12 34 56 $ #@#@#@#@ abcdefghijklmnopqrstuvwxyz'')
     = u ''invoice total amount 12 34 56 $  abcdefghijklmnopqrstuvwxyz''"
  "length (strip (u ''invoice total amount 12 34 56 $  abcdefghijklmnopqrstuvwxyz'')) = 59"
  "length (u ''invoice total amount 12 34 56 $  abcdefghijklmnopqrstuvwxyz'') = 59"
  "keywords_found U (u ''invoice total amount 12 34 56 $  abcdefghijklmnopqrstuvwxyz'') = 3"
  "numeric_tokens U (u ''invoice total amount 12 34 56 $  abcdefghijklmnopqrstuvwxyz'') = 3"
  "\<not> repeats_four_in_line (u ''invoice total amount 12 34 56 $  abcdefghijklmnopqrstuvwxyz'')"
  by (simp_all add: text_eval)


section \<open>Properties of the extraction functions\<close>

lemma fold_append_line: "fold append_line ls acc = acc @ text_of_lines ls"
  by (induction ls arbitrary: acc) (auto simp: append_line_def text_of_lines_def Let_def)

lemma render_page_eq:
  "render_page pages p acc =
     acc @ text_of_lines (sort_key position (lines_of pages p))
       @ (if p < Max (set (map fst pages)) then page_break else [])"
  by (simp add: render_page_def Let_def fold_append_line)

lemma fold_render_page:
  "fold (render_page pages) ks acc =
     acc @ concat (map (\<lambda>p. text_of_lines (sort_key position (lines_of pages p))
       @ (if p < Max (set (map fst pages)) then page_break else [])) ks)"
  by (induction ks arbitrary: acc) (simp_all add: render_page_eq)

lemma concat_markers_join:
  assumes "sorted ks" "distinct ks" "ks \<noteq> []"
  shows "concat (map (\<lambda>k. f k @ (if k < last ks then sep else [])) ks) = join sep (map f ks)"
  using assms
proof (induction ks)
  case Nil
  then show ?case by simp
next
  case (Cons k ks)
  show ?case
  proof (cases ks)
    case Nil
    then show ?thesis by simp
  next
    case (Cons k' ks')
    have in_ks: "last ks \<in> set ks" using Cons by simp
    have "k \<le> last ks" using Cons.prems(1) in_ks by simp
    moreover have "k \<noteq> last ks" using Cons.prems(2) in_ks by auto
    ultimately have lt: "k < last ks" by simp
    have ih: "concat (map (\<lambda>k. f k @ (if k < last ks then sep else [])) ks) = join sep (map f ks)"
      using Cons.IH Cons.prems Cons by simp
    have "join sep (map f (k # ks)) = f k @ sep @ join sep (map f ks)"
      using Cons by simp
    then show ?thesis using lt ih Cons by simp
  qed
qed

lemma Max_sorted_last: "sorted ks \<Longrightarrow> ks \<noteq> [] \<Longrightarrow> Max (set ks) = last ks"
proof (induction ks)
  case Nil
  then show ?case by simp
next
  case (Cons k ks)
  show ?case
  proof (cases "ks = []")
    case True
    then show ?thesis by simp
  next
    case False
    then have ih: "Max (set ks) = last ks" using Cons by simp
    have "last ks \<in> set ks" using False by simp
    then have "k \<le> last ks" using Cons.prems(1) by simp
    then show ?thesis using False ih by (simp add: max_def)
  qed
qed

lemma page_not_line: "u ''PAGE'' \<noteq> u ''LINE''"
  by (simp add: u_def)

lemma lines_of_group_block:
  "lines_of (group_block b P) p =
     (if is_page_on p b then []
      else if is_line_on p b then lines_of P p @ [b] else lines_of P p)"
  using page_not_line
  by (auto simp: lines_of_def group_block_def is_page_on_def is_line_on_def update_conv' get_def)

lemma kept_lines_snoc:
  "kept_lines p (bs @ [b]) =
     (if is_page_on p b then []
      else if is_line_on p b then kept_lines p bs @ [b] else kept_lines p bs)"
  by (simp add: kept_lines_def)

lemma lines_of_fold: "lines_of (fold group_block bs []) p = kept_lines p bs"
proof (induction bs rule: rev_induct)
  case Nil
  then show ?case by (simp add: lines_of_def kept_lines_def get_def)
next
  case (snoc b bs)
  then show ?case by (simp add: lines_of_group_block kept_lines_snoc)
qed

lemma distinct_group_block: "distinct (map fst P) \<Longrightarrow> distinct (map fst (group_block b P))"
  by (simp add: group_block_def distinct_update)

lemma distinct_fold_group: "distinct (map fst P) \<Longrightarrow> distinct (map fst (fold group_block bs P))"
  by (induction bs arbitrary: P) (simp_all add: distinct_group_block)

lemma keys_group_block:
  "set (map fst (group_block b P)) = set (map fst P) \<union> set (page_numbers [b])"
  by (auto simp: group_block_def page_numbers_def dom_update)

lemma page_numbers_append: "page_numbers (xs @ ys) = page_numbers xs @ page_numbers ys"
  by (simp add: page_numbers_def)

lemma keys_fold_group:
  "set (map fst (fold group_block bs P)) = set (map fst P) \<union> set (page_numbers bs)"
proof (induction bs arbitrary: P)
  case Nil
  then show ?case by (simp add: page_numbers_def)
next
  case (Cons b bs)
  have "page_numbers (b # bs) = page_numbers [b] @ page_numbers bs"
    using page_numbers_append[of "[b]" bs] by simp
  then show ?case using Cons[of "group_block b P"] keys_group_block[of b P] by auto
qed

lemma sorted_keys:
  "sort (map fst (fold group_block bs [])) = sort (remdups (page_numbers bs))"
proof (rule sorted_distinct_set_unique)
  show "sorted (sort (map fst (fold group_block bs [])))" by simp
  show "distinct (sort (map fst (fold group_block bs [])))"
    using distinct_fold_group[of "[]" bs] by simp
  show "sorted (sort (remdups (page_numbers bs)))" by simp
  show "distinct (sort (remdups (page_numbers bs)))" by simp
  show "set (sort (map fst (fold group_block bs []))) = set (sort (remdups (page_numbers bs)))"
    using keys_fold_group[of bs "[]"] by simp
qed

lemma formatting_loop_result: "extract_text_with_formatting blocks = loop_result blocks"
proof -
  define pages where "pages = fold group_block blocks []"
  define ks where "ks = sort (map fst pages)"
  have ks_eq: "ks = sort (remdups (page_numbers blocks))"
    unfolding ks_def pages_def by (rule sorted_keys)
  have srt: "sorted ks" and dst: "distinct ks"
    unfolding ks_eq by simp_all
  have body: "fold (render_page pages) ks [] =
      join page_break (map (\<lambda>p. text_of_lines (sort_key position (lines_of pages p))) ks)"
  proof (cases "ks = []")
    case True
    then show ?thesis by simp
  next
    case False
    have "Max (set (map fst pages)) = Max (set ks)" by (simp add: ks_def)
    also have "\<dots> = last ks" using srt False by (rule Max_sorted_last)
    finally have m: "Max (set (map fst pages)) = last ks" .
    show ?thesis
      unfolding fold_render_page m using concat_markers_join[OF srt dst False] by simp
  qed
  have "extract_text_with_formatting blocks = strip (fold (render_page pages) ks [])"
    by (simp add: extract_text_with_formatting_def Let_def pages_def ks_def)
  also have "\<dots> = strip (join page_break
      (map (\<lambda>p. text_of_lines (sort_key position (kept_lines p blocks))) ks))"
    unfolding body by (simp add: pages_def lines_of_fold)
  finally show ?thesis by (simp add: loop_result_def ks_eq)
qed

lemma zip_upt_Cons:
  "zip [Suc n..<Suc (Suc (n + k))] (t # ts) = (Suc n, t) # zip [Suc (Suc n)..<Suc (Suc (n + k))] ts"
  by (simp add: upt_conv_Cons)

lemma extract_pages_closed:
  "extract_pages n pages acc =
     (case page_texts pages of
        Inl e \<Rightarrow> Inl e
      | Inr ts \<Rightarrow> Inr (acc @ marked_pages (filter (\<lambda>(n, t). strip t \<noteq> [])
                       (zip [Suc n..<Suc n + length ts] ts))))"
proof (induction n pages acc rule: extract_pages.induct)
  case (1 page_num acc)
  then show ?case by (simp add: marked_pages_def)
next
  case (2 page_num e pages acc)
  then show ?case by simp
next
  case (3 page_num page_text pages acc)
  show ?case
  proof (cases "page_texts pages")
    case (Inl e)
    with 3 show ?thesis by simp
  next
    case (Inr ts)
    show ?thesis using 3 Inr by (simp add: zip_upt_Cons marked_pages_def del: upt_Suc)
  qed
qed

lemma extract_text_from_pdf_closed:
  "extract_text_from_pdf file =
     ([UsingPyPDF2 (name file)],
      case pdf file of
        Inl e \<Rightarrow> Inl (PdfFailed e)
      | Inr pages \<Rightarrow>
          (case page_texts pages of
             Inl e \<Rightarrow> Inl (PdfFailed e)
           | Inr ts \<Rightarrow> Inr (local_text ts)))"
  by (simp add: extract_text_from_pdf_def extract_pages_closed local_text_def numbered_def
      split: sum.splits)

lemma extract_text_from_file_closed:
  "extract_text_from_file U file =
     (if suffix (u ''.pdf'') (lower U (name file))
      then ([UsingPyPDF2 (name file)],
            case pdf file of
              Inl e \<Rightarrow> Inl (PdfFailed e)
            | Inr pages \<Rightarrow>
                (case page_texts pages of
                   Inl e \<Rightarrow> Inl (PdfFailed e)
                 | Inr ts \<Rightarrow> Inr (local_text ts)))
      else ([], Inl (UnsupportedFileType (lower U (name file)))))"
  by (simp add: extract_text_from_file_def Let_def extract_text_from_pdf_closed)

lemma lower_pdf_name: "lower U (u ''a.pdf'') = u ''a.pdf''"
  by (simp add: lower_def lower_char_def u_def)

lemma pdf_suffix: "suffix (u ''.pdf'') (u ''a.pdf'')"
  by (simp add: u_def suffix_to_prefix)

lemma blank_page_local_text: "local_text [u '' ''] = []"
  by (simp add: local_text_def numbered_def marked_pages_def strip_def isspace_def u_def
      clean_financial_text_def)

lemma str_1: "str (Suc 0) = [49]"
  by (simp add: str.simps[of "Suc 0"])

lemma blank_page_marked:
  "strip (marked_pages (filter (\<lambda>(n, t). t \<noteq> []) (numbered [u '' '']))) = u ''--- PAGE 1 ---''"
  by (simp add: numbered_def marked_pages_def str_1) (simp add: strip_def isspace_def u_def)

lemma clean_marker: "clean_financial_text (u ''--- PAGE 1 ---'') = u ''--- PAGE 1 ---''"
proof -
  have "split_on 10 (u ''--- PAGE 1 ---'') = [u ''--- PAGE 1 ---'']"
    by (rule split_on_plain) (simp add: u_def)
  moreover have "strip (u ''--- PAGE 1 ---'') = u ''--- PAGE 1 ---''"
    by (simp add: strip_def isspace_def u_def)
  moreover have "map ocr_char (u ''--- PAGE 1 ---'') = u ''--- PAGE 1 ---''"
    by (simp add: ocr_char_def u_def)
  moreover have "u ''--- PAGE 1 ---'' \<noteq> []" by (simp add: u_def)
  ultimately show ?thesis by (simp add: clean_eq tidy_lines_def)
qed

lemma blank_page_local_text_nonempty: "local_text_nonempty [u '' ''] = u ''--- PAGE 1 ---''"
  unfolding local_text_nonempty_def blank_page_marked by (rule clean_marker)

lemma local_never_textract_error:
  "snd (extract_text_from_file U file) \<noteq> Inl (TextractFailed e)"
  by (simp add: extract_text_from_file_closed split: sum.splits)

lemma local_prints_no_textract:
  "UsingTextract n \<notin> set (fst (extract_text_from_file U file))"
  by (simp add: extract_text_from_file_closed)

lemma remote_failure_cases:
  "snd (extract_text_with_aws_textract_sync file) = Inl err \<Longrightarrow>
     extract_text_with_aws_textract_sync file = ([UsingTextract (name file)], Inl err)"
  by (simp add: extract_text_with_aws_textract_sync_def split: sum.splits)

section \<open>Properties of the dispatch\<close>

lemma type_names_differ:
  "u ''bank_statement'' \<noteq> u ''invoice''" "u ''tax_document'' \<noteq> u ''invoice''"
  "u ''receipt'' \<noteq> u ''invoice''" "u ''financial_report'' \<noteq> u ''invoice''"
  "u ''other'' \<noteq> u ''invoice''" "u ''tax_document'' \<noteq> u ''bank_statement''"
  "u ''receipt'' \<noteq> u ''bank_statement''" "u ''financial_report'' \<noteq> u ''bank_statement''"
  "u ''other'' \<noteq> u ''bank_statement''"
  by (simp_all add: u_def)

lemma dispatch_six:
  "dispatch M (u ''invoice'') t =
     ([ProcessInvoice t], Some (map_sum id InvoiceOutput (process_invoice M t)))"
  "dispatch M (u ''bank_statement'') t =
     ([ProcessBankStatement t], Some (map_sum id BankTransactions (process_bank_statement M t)))"
  "dispatch M (u ''tax_document'') t =
     ([ProcessGeneralDocument t], Some (map_sum id GeneralDocumentOutput (process_general_document M t)))"
  "dispatch M (u ''receipt'') t =
     ([ProcessGeneralDocument t], Some (map_sum id GeneralDocumentOutput (process_general_document M t)))"
  "dispatch M (u ''financial_report'') t =
     ([ProcessGeneralDocument t], Some (map_sum id GeneralDocumentOutput (process_general_document M t)))"
  "dispatch M (u ''other'') t =
     ([ProcessGeneralDocument t], Some (map_sum id GeneralDocumentOutput (process_general_document M t)))"
  by (simp_all add: dispatch_def type_names_differ)

lemma dispatch_known:
  "d \<in> set document_types \<Longrightarrow> length (fst (dispatch M d t)) = 1 \<and> snd (dispatch M d t) \<noteq> None"
  unfolding document_types_def using dispatch_six[of M t] by auto

lemma analyse_never_unsupported: "snd (analyse_text M entry) \<noteq> NotSupported n"
proof -
  obtain file_name t q where e: "entry = (file_name, t, q)" by (cases entry) auto
  show ?thesis
  proof (cases "classify_document M t")
    case (Inl x)
    then show ?thesis by (simp add: analyse_text_def e)
  next
    case (Inr d)
    then have "d \<in> set document_types"
      by (auto simp: classify_document_def split: sum.splits if_splits)
    then have "snd (dispatch M d t) \<noteq> None" using dispatch_known by blast
    then show ?thesis using Inr
      by (auto simp: analyse_text_def e split: prod.splits option.splits sum.splits)
  qed
qed

section \<open>Properties of the two steps\<close>

lemma total_page_marked:
  "strip (marked_pages (filter (\<lambda>(n, t). strip t \<noteq> []) (numbered [u ''Total 12''])))
     = u ''--- PAGE 1 ---'' @ 10 # u ''Total 12''"
  by (simp add: numbered_def marked_pages_def str_1) (simp add: strip_def isspace_def u_def)

lemma total_page_clean:
  "clean_financial_text (u ''--- PAGE 1 ---'' @ 10 # u ''Total 12'') = u ''--- PAGE 1 ---\<newline>Tota1 12''"
proof -
  have "split_on 10 (u ''--- PAGE 1 ---'' @ 10 # u ''Total 12'')
      = u ''--- PAGE 1 ---'' # split_on 10 (u ''Total 12'')"
    by (rule split_on_append) (simp add: u_def)
  moreover have "split_on 10 (u ''Total 12'') = [u ''Total 12'']"
    by (rule split_on_plain) (simp add: u_def)
  moreover have "strip (u ''--- PAGE 1 ---'') = u ''--- PAGE 1 ---''"
    "strip (u ''Total 12'') = u ''Total 12''"
    by (simp_all add: strip_def isspace_def u_def)
  moreover have "map ocr_char (u ''--- PAGE 1 ---'') = u ''--- PAGE 1 ---''"
    "map ocr_char (u ''Total 12'') = u ''Tota1 12''"
    by (simp_all add: ocr_char_def u_def)
  moreover have "u ''--- PAGE 1 ---'' \<noteq> []" "u ''Total 12'' \<noteq> []" by (simp_all add: u_def)
  moreover have "u ''--- PAGE 1 ---'' @ 10 # u ''Tota1 12'' = u ''--- PAGE 1 ---\<newline>Tota1 12''"
    by (simp add: u_def)
  ultimately show ?thesis by (simp add: clean_eq tidy_lines_def)
qed

lemma total_page_local_text: "local_text [u ''Total 12''] = u ''--- PAGE 1 ---\<newline>Tota1 12''"
  unfolding local_text_def total_page_marked by (rule total_page_clean)

lemma sample_local_result:
  "snd (extract_text_from_file ascii_only
      (\<lparr>name = u ''a.pdf'', textract = Inl (u ''denied''), pdf = Inr [Inr (u ''Total 12'')],
        openpyxl = Inl [], xlrd = Inl []\<rparr> :: unit uploaded_file))
     = Inr (u ''--- PAGE 1 ---\<newline>Tota1 12'')"
  by (simp add: extract_text_from_file_closed lower_pdf_name pdf_suffix total_page_local_text)






section \<open>Properties of the remote formatter on announced pages\<close>

lemma position_top_then_left: "position = top_then_left"
  by (rule ext) (simp add: position_def top_then_left_def)

lemma page_break_literal: "page_break = u ''\<newline>--- PAGE BREAK ---\<newline>''"
  by (simp add: page_break_def)

lemma lines_of_fold_announced:
  assumes "pages_announced seen bs" "\<And>q. lines_of P q \<noteq> [] \<Longrightarrow> q \<in> set seen"
  shows "lines_of (fold group_block bs P) p = lines_of P p @ filter (is_line_on p) bs"
  using assms
proof (induction bs arbitrary: P seen)
  case Nil
  then show ?case by simp
next
  case (Cons b bs)
  show ?case
  proof (cases "BlockType b = Some (u ''PAGE'')")
    case True
    let ?q = "get (Page b) 1"
    from Cons.prems(1) True have nq: "?q \<notin> set seen" and rest: "pages_announced seen bs" by simp_all
    from nq Cons.prems(2) have e: "lines_of P ?q = []" by blast
    have same: "lines_of (group_block b P) r = lines_of P r" for r
      using True e page_not_line by (auto simp: lines_of_group_block is_page_on_def is_line_on_def)
    have "lines_of (fold group_block bs (group_block b P)) p
        = lines_of (group_block b P) p @ filter (is_line_on p) bs"
      using rest by (rule Cons.IH) (use same Cons.prems(2) in simp)
    moreover have "\<not> is_line_on p b" using True page_not_line by (simp add: is_line_on_def)
    ultimately show ?thesis by (simp add: same)
  next
    case False
    show ?thesis
    proof (cases "BlockType b = Some (u ''LINE'')")
      case True
      let ?q = "get (Page b) 1"
      from Cons.prems(1) True False have rest: "pages_announced (?q # seen) bs" by simp
      have step: "lines_of (group_block b P) r = (if r = ?q then lines_of P r @ [b] else lines_of P r)" for r
        using True False by (auto simp: lines_of_group_block is_page_on_def is_line_on_def)
      have inv: "q \<in> set (?q # seen)" if "lines_of (group_block b P) q \<noteq> []" for q
        using that Cons.prems(2)[of q] by (cases "q = ?q") (simp_all add: step)
      have "lines_of (fold group_block bs (group_block b P)) p
          = lines_of (group_block b P) p @ filter (is_line_on p) bs"
        using rest inv by (rule Cons.IH)
      moreover have "is_line_on p b = (p = ?q)" using True by (auto simp: is_line_on_def)
      ultimately show ?thesis by (simp add: step)
    next
      case other: False
      have same: "group_block b P = P" using False other by (simp add: group_block_def)
      have "\<not> is_line_on p b" using other by (simp add: is_line_on_def)
      moreover have "pages_announced seen bs" using Cons.prems(1) False other by simp
      ultimately show ?thesis using Cons.IH[of seen P] Cons.prems(2) by (simp add: same)
    qed
  qed
qed

lemma kept_lines_announced:
  "pages_announced [] blocks \<Longrightarrow> kept_lines p blocks = filter (is_line_on p) blocks"
proof -
  assume a: "pages_announced [] blocks"
  have "lines_of (fold group_block blocks []) p = lines_of [] p @ filter (is_line_on p) blocks"
    using a by (rule lines_of_fold_announced) (simp add: lines_of_def get_def)
  moreover have "lines_of [] p = []" by (simp add: lines_of_def get_def)
  ultimately show ?thesis by (simp only: lines_of_fold append_Nil)
qed

lemma formatting_spec:
  "pages_announced [] blocks \<Longrightarrow> extract_text_with_formatting blocks = spec_reading_order blocks"
  by (simp add: formatting_loop_result loop_result_def spec_reading_order_def
      kept_lines_announced position_top_then_left page_break_literal)

lemmas formatter_eval = page_numbers_def kept_lines_def is_line_on_def is_page_on_def
  get_def position_def top_then_left_def text_of_lines_def strip_def isspace_def u_def page_break_def


section \<open>The claims\<close>

text \<open>
  Claim C5. The text normalizer is idempotent: cleaning a cleaned text gives the same text,
  where cleaning is the whole of \<^verbatim>\<open>clean_financial_text\<close>: trimming the lines,
  collapsing the blank lines and applying the substitution table.
\<close>

theorem clean_financial_text_idempotent:
  "clean_financial_text (clean_financial_text x) = clean_financial_text x"
proof -
  define T where "T = map (map ocr_char) (tidy_lines (split_on 10 x))"
  have cx: "clean_financial_text x = join [10] T" by (simp add: clean_eq T_def)
  show ?thesis
  proof (cases "T = []")
    case True
    then have e: "clean_financial_text x = []" by (simp add: cx)
    have "clean_financial_text [] = []" by (simp add: clean_financial_text_def)
    then show ?thesis by (simp only: e)
  next
    case False
    have nosep: "10 \<notin> set l" if "l \<in> set T" for l
    proof -
      from that obtain k where k: "k \<in> set (tidy_lines (split_on 10 x))" "l = map ocr_char k"
        by (auto simp: T_def)
      from k(1) have "10 \<notin> set k" by (rule tidy_no_sep)
      with k(2) show ?thesis using ocr_char_eq_nl by fastforce
    qed
    have "split_on 10 (join [10] T) = T" using False nosep by (rule split_join)
    then have "clean_financial_text (join [10] T) = join [10] (map (map ocr_char) (tidy_lines T))"
      by (simp add: clean_eq)
    also have "tidy_lines T = T" unfolding T_def by (rule ocr_lines_fixed)
    also have "map (map ocr_char) T = T" unfolding T_def by (simp add: ocr_char_idem comp_def)
    finally show ?thesis by (simp add: cx)
  qed
qed

text \<open>
  Claim C9. The text normalizer is a total function without a failure case. Its result is
  the lines of the input, each trimmed, with every run of blank lines collapsed to one
  blank line and the leading blank lines dropped (\<open>tidy_lines\<close>), each line passed
  through the substitution table, joined by line feeds; every line of the result is
  trimmed, no two blank lines follow each other, and the empty text gives the empty text.
\<close>

theorem clean_financial_text_total_line_structure:
  "clean_financial_text x =
     join (u ''\<newline>'') (map fix_common_ocr_errors (tidy_lines (split_on 10 x)))
   \<and> list_all (\<lambda>l. strip l = l) (split_on 10 (clean_financial_text x))
   \<and> no_double_blank (split_on 10 (clean_financial_text x))
   \<and> clean_financial_text [] = []"
proof -
  have fm: "fix_common_ocr_errors = map ocr_char" by (rule ext) (rule fix_map)
  have a: "clean_financial_text x =
     join (u ''\<newline>'') (map fix_common_ocr_errors (tidy_lines (split_on 10 x)))"
    by (simp add: clean_eq u_nl fm)
  have b: "list_all (\<lambda>l. strip l = l) (split_on 10 (clean_financial_text x))"
    unfolding clean_lines_of_output list_all_iff using ocr_lines_trimmed by auto
  have c: "no_double_blank (split_on 10 (clean_financial_text x))"
    unfolding clean_lines_of_output by (simp add: no_double_map tidy_no_double)
  have d: "clean_financial_text [] = []" by (simp add: clean_financial_text_def)
  from a b c d show ?thesis by (intro conjI)
qed

text \<open>
  Claim C10. The multi-character rules \<^verbatim>\<open>lnvoice\<close>, \<^verbatim>\<open>lnv\<close>, \<^verbatim>\<open>TotaI\<close> and
  \<^verbatim>\<open>0l\<close> of the substitution table never take effect. When the loop reaches one of
  them, the text it has built so far does not contain the rule's left side, because the
  rules for \<^verbatim>\<open>l\<close> and \<^verbatim>\<open>I\<close> came earlier; the whole table does what the four
  single-character rules do, and \<^verbatim>\<open>lnvoice\<close> becomes \<^verbatim>\<open>1nvoice\<close>, not
  \<^verbatim>\<open>Invoice\<close>.
\<close>

theorem multi_character_rules_never_fire:
  "replacements ! 7 = (u ''lnvoice'', u ''Invoice'')
   \<and> \<not> sublist (u ''lnvoice'') (apply_replacements (take 7 replacements) text)
   \<and> replacements ! 8 = (u ''lnv'', u ''Inv'')
   \<and> \<not> sublist (u ''lnv'') (apply_replacements (take 8 replacements) text)
   \<and> replacements ! 9 = (u ''TotaI'', u ''Total'')
   \<and> \<not> sublist (u ''TotaI'') (apply_replacements (take 9 replacements) text)
   \<and> replacements ! 13 = (u ''0l'', u ''01'')
   \<and> \<not> sublist (u ''0l'') (apply_replacements (take 13 replacements) text)
   \<and> fix_common_ocr_errors text = map ocr_char text
   \<and> fix_common_ocr_errors (u ''lnvoice'') = u ''1nvoice''
   \<and> fix_common_ocr_errors (u ''lnvoice'') \<noteq> u ''Invoice''"
proof -
  have t7: "apply_replacements (take 7 replacements) text = map ocr_char text"
    using after_singles[of 0] by simp
  have t8: "apply_replacements (take 8 replacements) text = map ocr_char text"
    using after_singles[of 1] by simp
  have t9: "apply_replacements (take 9 replacements) text = map ocr_char text"
    using after_singles[of 2] by simp
  have t13: "apply_replacements (take 13 replacements) text = map ocr_char text"
    using after_singles[of 6] by simp
  have idx: "replacements ! 7 = (u ''lnvoice'', u ''Invoice'')" "replacements ! 8 = (u ''lnv'', u ''Inv'')"
     "replacements ! 9 = (u ''TotaI'', u ''Total'')" "replacements ! 13 = (u ''0l'', u ''01'')"
    by (simp_all add: replacements_def)
  have s: "\<not> sublist (u ''lnvoice'') (map ocr_char text)" "\<not> sublist (u ''lnv'') (map ocr_char text)"
     "\<not> sublist (u ''TotaI'') (map ocr_char text)" "\<not> sublist (u ''0l'') (map ocr_char text)"
    by (rule no_l_after, simp add: u_def)+
  have ex: "fix_common_ocr_errors (u ''lnvoice'') = u ''1nvoice''"
    "fix_common_ocr_errors (u ''lnvoice'') \<noteq> u ''Invoice''"
    by (simp_all add: fix_map u_def ocr_char_def)
  show ?thesis unfolding t7 t8 t9 t13
    by (intro conjI) (rule idx s ex fix_map)+
qed

text \<open>
  Claim C3, as stated: the score is 100 minus the penalties, one of them for any character
  that repeats four times in a row, clamped to the range from 0 to 100. The pattern of the
  source does not match the line feed, so a text with four line feeds in a row and no
  other repetition keeps the 15 points that \<open>spec_score\<close> takes away.
\<close>

theorem quality_score_newline_run_counterexample:
  "validate_text_quality ascii_only (u ''abcdefghij\<newline>\<newline>\<newline>\<newline>k'') = 25
   \<and> spec_score ascii_only (u ''abcdefghij\<newline>\<newline>\<newline>\<newline>k'') = 10
   \<and> validate_text_quality ascii_only (u ''abcdefghij\<newline>\<newline>\<newline>\<newline>k'')
       \<noteq> spec_score ascii_only (u ''abcdefghij\<newline>\<newline>\<newline>\<newline>k'')"
  by (simp add: blank_sample_score blank_sample_spec_score)

text \<open>
  Claim C3, amended: the score is 0 for the empty text and for a text whose trimmed length
  is below 10; otherwise it is 100 minus 30 for a length below 50, minus 20 for fewer than
  3 keywords, minus 15 for fewer than 3 numeric tokens, minus 10 for no currency marker,
  minus 25 for more than a tenth of special characters, minus 15 for a character other
  than the line feed that stands four times in a row, clamped to the range from 0 to 100
  (\<open>line_score\<close>). The score always lies between 0 and 100.
\<close>

theorem quality_score_formula:
  "validate_text_quality U text = line_score U text
   \<and> 0 \<le> validate_text_quality U text
   \<and> validate_text_quality U text \<le> 100
   \<and> validate_text_quality U [] = 0"
  using line_score_bounds[of U "text"] by (simp add: validate_line_score) (simp add: line_score_def)

text \<open>
  Claim C6, as stated: removing the characters that the noise test counts never lowers the
  score. The text \<^verbatim>\<open>#1#2#3#$##\<close> scores 25; without its six noise characters it is
  \<^verbatim>\<open>123$\<close>, shorter than 10 characters, and scores 0.
\<close>

theorem noise_removal_counterexample:
  "validate_text_quality ascii_only (u ''#1#2#3#$##'') = 25
   \<and> validate_text_quality ascii_only (remove_noise ascii_only (u ''#1#2#3#$##'')) = 0
   \<and> validate_text_quality ascii_only (remove_noise ascii_only (u ''#1#2#3#$##''))
       < validate_text_quality ascii_only (u ''#1#2#3#$##'')"
  by (simp add: noisy_sample_score noisy_sample_removed_score)

text \<open>
  Claim C6, amended: removing the noise characters does not lower the score when the
  remaining text still has a trimmed length of 10 or more and does not newly fall under
  the penalty for length, for keywords, for numeric tokens or for repetition. The removal
  itself leaves no noise character and keeps every currency marker.
\<close>

theorem noise_removal_keeps_score:
  assumes "10 \<le> length (strip (remove_noise U text))"
    and "50 \<le> length (remove_noise U text) \<or> length text < 50"
    and "3 \<le> keywords_found U (remove_noise U text) \<or> keywords_found U text < 3"
    and "3 \<le> numeric_tokens U (remove_noise U text) \<or> numeric_tokens U text < 3"
    and "repeats_four_in_line (remove_noise U text) \<longrightarrow> repeats_four_in_line text"
  shows "validate_text_quality U text \<le> validate_text_quality U (remove_noise U text)
    \<and> noise_count U (remove_noise U text) = 0
    \<and> (has_currency (remove_noise U text) \<or> \<not> has_currency text)"
  using noise_removal[OF assms] noise_count_remove_noise[of U "text"]
    has_currency_remove_noise[of "text" U] by blast

theorem noise_removal_keeps_score_witness:
  "10 \<le> length (strip (remove_noise ascii_only
       (u ''invoice total amount 12 34 56 $ #@#@#@#@ abcdefghijklmnopqrstuvwxyz'')))
   \<and> 50 \<le> length (remove_noise ascii_only
       (u ''invoice total amount 12 34 56 $ #@#@#@#@ abcdefghijklmnopqrstuvwxyz''))
   \<and> 3 \<le> keywords_found ascii_only (remove_noise ascii_only
       (u ''invoice total amount 12 34 56 $ #@#@#@#@ abcdefghijklmnopqrstuvwxyz''))
   \<and> 3 \<le> numeric_tokens ascii_only (remove_noise ascii_only
       (u ''invoice total amount 12 34 56 $ #@#@#@#@ abcdefghijklmnopqrstuvwxyz''))
   \<and> \<not> repeats_four_in_line (remove_noise ascii_only
       (u ''invoice total amount 12 34 56 $ #@#@#@#@ abcdefghijklmnopqrstuvwxyz''))
   \<and> validate_text_quality ascii_only
        (u ''invoice total amount 12 34 56 $ #@#@#@#@ abcdefghijklmnopqrstuvwxyz'')
      \<le> validate_text_quality ascii_only (remove_noise ascii_only
        (u ''invoice total amount 12 34 56 $ #@#@#@#@ abcdefghijklmnopqrstuvwxyz''))"
  using noise_removal_keeps_score[of ascii_only
      "u ''invoice total amount 12 34 56 $ #@#@#@#@ abcdefghijklmnopqrstuvwxyz''"]
  by (simp add: clean_sample)

text \<open>
  Claim C4, at a response in which a \<^verbatim>\<open>PAGE\<close> block follows a line of its page. The
  branch of the source for a \<^verbatim>\<open>PAGE\<close> block assigns the empty list to the page without
  the test that the branch for a \<^verbatim>\<open>LINE\<close> block makes, so the line \<^verbatim>\<open>X\<close> met before is
  dropped and the result is \<^verbatim>\<open>Y\<close> alone; grouping the lines by page, as the claim
  says, gives \<^verbatim>\<open>X\<close>, a line feed, \<^verbatim>\<open>Y\<close>.
\<close>

theorem formatter_page_reset_drops_lines:
  "extract_text_with_formatting
     [\<lparr>BlockType = Some (u ''LINE''), Page = Some 1, Top = Some (1/10), Left = Some (1/10),
        Text = Some (u ''X'')\<rparr>,
      \<lparr>BlockType = Some (u ''PAGE''), Page = Some 1, Top = None, Left = None, Text = None\<rparr>,
      \<lparr>BlockType = Some (u ''LINE''), Page = Some 1, Top = Some (1/5), Left = Some (1/10),
        Text = Some (u ''Y'')\<rparr>] = u ''Y''
   \<and> spec_reading_order
     [\<lparr>BlockType = Some (u ''LINE''), Page = Some 1, Top = Some (1/10), Left = Some (1/10),
        Text = Some (u ''X'')\<rparr>,
      \<lparr>BlockType = Some (u ''PAGE''), Page = Some 1, Top = None, Left = None, Text = None\<rparr>,
      \<lparr>BlockType = Some (u ''LINE''), Page = Some 1, Top = Some (1/5), Left = Some (1/10),
        Text = Some (u ''Y'')\<rparr>] = u ''X\<newline>Y''"
  by (simp add: formatting_loop_result loop_result_def spec_reading_order_def formatter_eval)

text \<open>
  Claim C4, for the responses that announce their pages (no \<^verbatim>\<open>PAGE\<close> block after a line
  of its page, in particular every response of lines only). There the formatter groups
  the lines by page, sorts the lines of each page in ascending order of top, then left,
  writes the non-blank trimmed texts each closed by a line feed, separates the pages by
  the page break marker and trims the whole (\<open>spec_reading_order\<close>). The examples are
  the two lines of the claim and a response of two pages with two lines of equal top.
\<close>

theorem formatter_reading_order:
  assumes "pages_announced [] blocks"
  shows "extract_text_with_formatting blocks = spec_reading_order blocks"
proof -
  have kept: "kept_lines p blocks = filter (is_line_on p) blocks" for p
    using assms by (rule kept_lines_announced)
  have "extract_text_with_formatting blocks = loop_result blocks"
    by (rule formatting_loop_result)
  also have "\<dots> = spec_reading_order blocks"
    by (simp add: loop_result_def spec_reading_order_def kept position_top_then_left
        page_break_literal)
  finally show ?thesis .
qed

theorem formatter_reading_order_witness:
  "pages_announced []
     [\<lparr>BlockType = Some (u ''LINE''), Page = Some 1, Top = Some (1/2), Left = Some (1/10),
        Text = Some (u ''B'')\<rparr>,
      \<lparr>BlockType = Some (u ''LINE''), Page = Some 1, Top = Some (1/10), Left = Some (1/5),
        Text = Some (u ''A'')\<rparr>]
   \<and> extract_text_with_formatting
     [\<lparr>BlockType = Some (u ''LINE''), Page = Some 1, Top = Some (1/2), Left = Some (1/10),
        Text = Some (u ''B'')\<rparr>,
      \<lparr>BlockType = Some (u ''LINE''), Page = Some 1, Top = Some (1/10), Left = Some (1/5),
        Text = Some (u ''A'')\<rparr>] = u ''A\<newline>B''
   \<and> pages_announced []
     [\<lparr>BlockType = Some (u ''PAGE''), Page = Some 1, Top = None, Left = None, Text = None\<rparr>,
      \<lparr>BlockType = Some (u ''LINE''), Page = Some 1, Top = Some (1/2), Left = Some (1/10),
        Text = Some (u ''B'')\<rparr>,
      \<lparr>BlockType = Some (u ''LINE''), Page = Some 1, Top = Some (1/10), Left = Some (1/5),
        Text = Some (u ''A'')\<rparr>,
      \<lparr>BlockType = Some (u ''LINE''), Page = Some 1, Top = Some (1/10), Left = Some (1/10),
        Text = Some (u ''C'')\<rparr>,
      \<lparr>BlockType = Some (u ''PAGE''), Page = Some 2, Top = None, Left = None, Text = None\<rparr>,
      \<lparr>BlockType = Some (u ''LINE''), Page = Some 2, Top = Some (1/10), Left = Some (1/10),
        Text = Some (u ''D'')\<rparr>]
   \<and> extract_text_with_formatting
     [\<lparr>BlockType = Some (u ''PAGE''), Page = Some 1, Top = None, Left = None, Text = None\<rparr>,
      \<lparr>BlockType = Some (u ''LINE''), Page = Some 1, Top = Some (1/2), Left = Some (1/10),
        Text = Some (u ''B'')\<rparr>,
      \<lparr>BlockType = Some (u ''LINE''), Page = Some 1, Top = Some (1/10), Left = Some (1/5),
        Text = Some (u ''A'')\<rparr>,
      \<lparr>BlockType = Some (u ''LINE''), Page = Some 1, Top = Some (1/10), Left = Some (1/10),
        Text = Some (u ''C'')\<rparr>,
      \<lparr>BlockType = Some (u ''PAGE''), Page = Some 2, Top = None, Left = None, Text = None\<rparr>,
      \<lparr>BlockType = Some (u ''LINE''), Page = Some 2, Top = Some (1/10), Left = Some (1/10),
        Text = Some (u ''D'')\<rparr>]
     = u ''C\<newline>A\<newline>B\<newline>\<newline>--- PAGE BREAK ---\<newline>D''"
proof -
  let ?one = "[\<lparr>BlockType = Some (u ''LINE''), Page = Some 1, Top = Some (1/2), Left = Some (1/10),
        Text = Some (u ''B'')\<rparr>,
      \<lparr>BlockType = Some (u ''LINE''), Page = Some 1, Top = Some (1/10), Left = Some (1/5),
        Text = Some (u ''A'')\<rparr>]"
  let ?two = "[\<lparr>BlockType = Some (u ''PAGE''), Page = Some 1, Top = None, Left = None, Text = None\<rparr>,
      \<lparr>BlockType = Some (u ''LINE''), Page = Some 1, Top = Some (1/2), Left = Some (1/10),
        Text = Some (u ''B'')\<rparr>,
      \<lparr>BlockType = Some (u ''LINE''), Page = Some 1, Top = Some (1/10), Left = Some (1/5),
        Text = Some (u ''A'')\<rparr>,
      \<lparr>BlockType = Some (u ''LINE''), Page = Some 1, Top = Some (1/10), Left = Some (1/10),
        Text = Some (u ''C'')\<rparr>,
      \<lparr>BlockType = Some (u ''PAGE''), Page = Some 2, Top = None, Left = None, Text = None\<rparr>,
      \<lparr>BlockType = Some (u ''LINE''), Page = Some 2, Top = Some (1/10), Left = Some (1/10),
        Text = Some (u ''D'')\<rparr>]"
  have a1: "pages_announced [] ?one" by (simp add: u_def get_def)
  have a2: "pages_announced [] ?two" by (simp add: u_def get_def)
  have s1: "spec_reading_order ?one = u ''A\<newline>B''"
    by (simp add: spec_reading_order_def formatter_eval)
  have s2: "spec_reading_order ?two = u ''C\<newline>A\<newline>B\<newline>\<newline>--- PAGE BREAK ---\<newline>D''"
    by (simp add: spec_reading_order_def formatter_eval)
  from formatter_reading_order[OF a1] formatter_reading_order[OF a2] a1 a2 s1 s2
  show ?thesis by simp
qed

text \<open>
  Claim C7, as stated: a page gets its marker when its extracted text is not empty. The
  source tests the trimmed text: for a file \<^verbatim>\<open>a.pdf\<close> whose only page has the text of
  one space, the result is the empty text, while marking every page with a non-empty text
  (\<open>local_text_nonempty\<close>) gives the marker of page 1.
\<close>

theorem local_extraction_blank_page_counterexample:
  "snd (extract_text_from_file ascii_only
      (\<lparr>name = u ''a.pdf'', textract = Inl [], pdf = Inr [Inr (u '' '')],
        openpyxl = Inl [], xlrd = Inl []\<rparr> :: unit uploaded_file)) = Inr []
   \<and> local_text_nonempty [u '' ''] = u ''--- PAGE 1 ---''
   \<and> u ''--- PAGE 1 ---'' \<noteq> []"
  by (simp add: extract_text_from_file_closed lower_pdf_name pdf_suffix blank_page_local_text
      blank_page_local_text_nonempty) (simp add: u_def)

text \<open>
  Claim C7, amended: local extraction fails with the unsupported-type error when the
  lower-cased file name does not end in \<^verbatim>\<open>.pdf\<close>, and with the extraction failure when
  the reader or the text extraction of a page fails; otherwise it goes through the pages
  in order, writes for every page whose trimmed text is not empty the marker with the
  position of the page and then the text of the page, trims the whole and passes it
  through the text normalizer (\<open>local_text\<close>).
\<close>

theorem local_extraction:
  "extract_text_from_file U file =
     (if suffix (u ''.pdf'') (lower U (name file))
      then ([UsingPyPDF2 (name file)],
            case pdf file of
              Inl e \<Rightarrow> Inl (PdfFailed e)
            | Inr pages \<Rightarrow>
                (case page_texts pages of
                   Inl e \<Rightarrow> Inl (PdfFailed e)
                 | Inr ts \<Rightarrow> Inr (local_text ts)))
      else ([], Inl (UnsupportedFileType (lower U (name file)))))"
proof (cases "suffix (u ''.pdf'') (lower U (name file))")
  case True
  have "extract_text_from_file U file = extract_text_from_pdf file"
    using True by (simp add: extract_text_from_file_def Let_def)
  then show ?thesis using True by (simp add: extract_text_from_pdf_closed)
next
  case False
  then show ?thesis by (simp add: extract_text_from_file_def Let_def)
qed

text \<open>
  Claim C1. When the remote extraction is preferred and fails, the hybrid extraction
  returns what the local extraction returns on the file; when it is not preferred, the
  hybrid extraction is the local extraction and the remote extraction does not run (its
  first statement prints \<open>UsingTextract\<close>). The failure of the remote extraction is never
  the result.
\<close>

theorem hybrid_fallback:
  "(snd (extract_text_with_aws_textract_sync file) = Inl err \<longrightarrow>
      snd (extract_text_hybrid U file True) = snd (extract_text_from_file U file))
   \<and> extract_text_hybrid U file False = extract_text_from_file U file
   \<and> UsingTextract n \<notin> set (fst (extract_text_hybrid U file False))
   \<and> snd (extract_text_hybrid U file use_aws) \<noteq> Inl (TextractFailed e)"
proof -
  have a: "snd (extract_text_hybrid U file True) = snd (extract_text_from_file U file)"
    if "snd (extract_text_with_aws_textract_sync file) = Inl err"
    using remote_failure_cases[OF that]
    by (simp add: extract_text_hybrid_def split: prod.splits)
  have b: "extract_text_hybrid U file False = extract_text_from_file U file"
    by (simp add: extract_text_hybrid_def)
  have c: "UsingTextract n \<notin> set (fst (extract_text_hybrid U file False))"
    unfolding b by (rule local_prints_no_textract)
  have d: "snd (extract_text_hybrid U file use_aws) \<noteq> Inl (TextractFailed e)"
  proof (cases use_aws)
    case False
    then show ?thesis using b local_never_textract_error by simp
  next
    case True
    show ?thesis
    proof (cases "textract file")
      case (Inl x)
      then have "snd (extract_text_with_aws_textract_sync file) = Inl (TextractFailed x)"
        by (simp add: extract_text_with_aws_textract_sync_def)
      then have "snd (extract_text_hybrid U file True) = snd (extract_text_from_file U file)"
        using remote_failure_cases[of "file" "TextractFailed x"]
        by (simp add: extract_text_hybrid_def split: prod.splits)
      then show ?thesis using True local_never_textract_error by simp
    next
      case (Inr r)
      then show ?thesis using True
        by (simp add: extract_text_hybrid_def extract_text_with_aws_textract_sync_def)
    qed
  qed
  from a b c d show ?thesis by blast
qed

theorem hybrid_fallback_witness:
  "snd (extract_text_with_aws_textract_sync
      (\<lparr>name = u ''a.pdf'', textract = Inl (u ''denied''), pdf = Inr [Inr (u ''Total 12'')],
        openpyxl = Inl [], xlrd = Inl []\<rparr> :: unit uploaded_file))
     = Inl (TextractFailed (u ''denied''))
   \<and> snd (extract_text_hybrid ascii_only
      (\<lparr>name = u ''a.pdf'', textract = Inl (u ''denied''), pdf = Inr [Inr (u ''Total 12'')],
        openpyxl = Inl [], xlrd = Inl []\<rparr> :: unit uploaded_file) True)
     = snd (extract_text_from_file ascii_only
      (\<lparr>name = u ''a.pdf'', textract = Inl (u ''denied''), pdf = Inr [Inr (u ''Total 12'')],
        openpyxl = Inl [], xlrd = Inl []\<rparr> :: unit uploaded_file))
   \<and> snd (extract_text_hybrid ascii_only
      (\<lparr>name = u ''a.pdf'', textract = Inl (u ''denied''), pdf = Inr [Inr (u ''Total 12'')],
        openpyxl = Inl [], xlrd = Inl []\<rparr> :: unit uploaded_file) True)
     = Inr (u ''--- PAGE 1 ---\<newline>Tota1 12'')"
proof -
  let ?f = "\<lparr>name = u ''a.pdf'', textract = Inl (u ''denied''), pdf = Inr [Inr (u ''Total 12'')],
        openpyxl = Inl [], xlrd = Inl []\<rparr> :: unit uploaded_file"
  have r: "snd (extract_text_with_aws_textract_sync ?f) = Inl (TextractFailed (u ''denied''))"
    by (simp add: extract_text_with_aws_textract_sync_def)
  have "snd (extract_text_hybrid ascii_only ?f True) = snd (extract_text_from_file ascii_only ?f)"
    using hybrid_fallback[of ?f "TextractFailed (u ''denied'')" ascii_only] r by blast
  then show ?thesis using r sample_local_result by simp
qed

text \<open>
  Claim C2. Each of the six document types is routed to one function: \<^verbatim>\<open>invoice\<close> to
  \<^verbatim>\<open>process_invoice\<close>, \<^verbatim>\<open>bank_statement\<close> to \<^verbatim>\<open>process_bank_statement\<close>, and the other
  four to \<^verbatim>\<open>process_general_document\<close>; one call is made and the last branch of the
  chain is not taken. As the classifier answers with one of the six types or fails, the
  analysis of a text never ends in that branch.
\<close>

theorem dispatch_complete:
  "dispatch M (u ''invoice'') t =
     ([ProcessInvoice t], Some (map_sum id InvoiceOutput (process_invoice M t)))
   \<and> dispatch M (u ''bank_statement'') t =
     ([ProcessBankStatement t], Some (map_sum id BankTransactions (process_bank_statement M t)))
   \<and> dispatch M (u ''tax_document'') t =
     ([ProcessGeneralDocument t], Some (map_sum id GeneralDocumentOutput (process_general_document M t)))
   \<and> dispatch M (u ''receipt'') t =
     ([ProcessGeneralDocument t], Some (map_sum id GeneralDocumentOutput (process_general_document M t)))
   \<and> dispatch M (u ''financial_report'') t =
     ([ProcessGeneralDocument t], Some (map_sum id GeneralDocumentOutput (process_general_document M t)))
   \<and> dispatch M (u ''other'') t =
     ([ProcessGeneralDocument t], Some (map_sum id GeneralDocumentOutput (process_general_document M t)))
   \<and> list_all (\<lambda>d. length (fst (dispatch M d t)) = 1 \<and> snd (dispatch M d t) \<noteq> None) document_types
   \<and> snd (analyse_text M entry) \<noteq> NotSupported n"
proof -
  have "list_all (\<lambda>d. length (fst (dispatch M d t)) = 1 \<and> snd (dispatch M d t) \<noteq> None) document_types"
    unfolding list_all_iff using dispatch_known by blast
  then show ?thesis using dispatch_six[of M t] analyse_never_unsupported by blast
qed




end
